theory Spec2Isabelle
  imports Main "HOL-Library.AList"
begin

unbundle bit_operations_syntax

section \<open>The plugin handler of rc (rc-plugin.c)\<close>

subsection \<open>Errors of the host process\<close>

text \<open>
  The ways in which the C code can leave defined behaviour: dereferencing a null
  pointer, reading past the end of the read buffer, and using a \<open>plugin_t\<close> cell
  after it was freed (or through a pointer that was never allocated).
\<close>

datatype error = Null_deref | Out_of_bounds | Use_after_free | Wild_pointer

subsection \<open>The host environment\<close>

type_synonym env = "string \<rightharpoonup> string"

abbreviation NUL :: char where
  "NUL \<equiv> CHR 0x00"

text \<open>
  \<open>unsetenv\<close> and \<open>setenv (name, value, 1)\<close> of the C library: both fail with
  EINVAL, changing nothing, when the name is empty or contains \<open>=\<close>. The source
  ignores their return values.
\<close>

definition valid_name :: "string \<Rightarrow> bool" where
  "valid_name name = (name \<noteq> [] \<and> CHR ''='' \<notin> set name)"

definition unsetenv :: "string \<Rightarrow> env \<Rightarrow> env" where
  "unsetenv name e = (if valid_name name then e(name := None) else e)"

definition setenv :: "string \<Rightarrow> string \<Rightarrow> env \<Rightarrow> env" where
  "setenv name val e = (if valid_name name then e(name \<mapsto> val) else e)"

subsection \<open>The environment channel: decoding one read chunk\<close>

text \<open>
  The read buffer is a list of \<open>BUFSIZ\<close> bytes and a \<open>char *\<close> into it is an index
  (\<open>None\<close> for the null pointer).  \<open>cstr buf p\<close> is the C string that starts at
  index \<open>p\<close>: the bytes up to the next NUL.  A string that is not terminated inside
  the buffer makes the C library read past its end.
\<close>

definition cstr :: "char list \<Rightarrow> nat \<Rightarrow> error + string" where
  "cstr buf p =
     (let s = takeWhile (\<lambda>c. c \<noteq> NUL) (drop p buf)
      in if length buf \<le> p + length s then Inl Out_of_bounds else Inr s)"

text \<open>
  \<open>strsep (&p, "=")\<close>: finds the first \<open>=\<close> or the terminating NUL of the string at
  \<open>p\<close>.  A \<open>=\<close> is overwritten with NUL and \<open>p\<close> becomes the index after it; at the
  terminating NUL \<open>p\<close> becomes the null pointer.  The token returned is the old \<open>p\<close>.
\<close>

definition strsep :: "char list \<Rightarrow> nat \<Rightarrow> error + (char list \<times> nat option)" where
  "strsep buf p =
     (let i = p + length (takeWhile (\<lambda>c. c \<noteq> CHR ''='' \<and> c \<noteq> NUL) (drop p buf))
      in if length buf \<le> i then Inl Out_of_bounds
         else if buf ! i = NUL then Inr (buf, None)
         else Inr (buf[i := NUL], Some (Suc i)))"

text \<open>
  The inner loop of \<open>rc_plugin_run\<close> (lines 233 to 244), for a chunk of \<open>nr\<close> bytes
  in \<open>buf\<close>:
  \<^verbatim>\<open>
  while (*p && p - buffer < nr) {
      token = strsep (&p, "=");
      if (token) {
          unsetenv (token);
          if (*p) { setenv (token, p, 1); p += strlen (p) + 1; }
          else p++;
      }
  }
  \<close>
  \<open>token\<close> is the old \<open>p\<close>, which is not null, so the \<open>if (token)\<close> branch is always
  taken.  \<open>if (*p)\<close> dereferences \<open>p\<close> with no test.  The loop condition
  evaluates \<open>*p\<close> before \<open>p - buffer < nr\<close>: when \<open>p\<close> has reached the end of the
  buffer (the last record ends at its last byte) it reads \<open>buffer[BUFSIZ]\<close>, one
  byte past the allocation.
\<close>

function decode :: "char list \<Rightarrow> nat \<Rightarrow> nat \<Rightarrow> env \<Rightarrow> error + (env \<times> char list)" where
  "decode buf nr p e =
     (if length buf \<le> p then Inl Out_of_bounds
      else if buf ! p \<noteq> NUL \<and> p < nr then
        (case strsep buf p of
           Inl err \<Rightarrow> Inl err
         | Inr (buf1, p1) \<Rightarrow>
            (case cstr buf1 p of
               Inl err \<Rightarrow> Inl err
             | Inr token \<Rightarrow>
                (case p1 of
                   None \<Rightarrow> Inl Null_deref
                 | Some q \<Rightarrow>
                    if length buf1 \<le> q then Inl Out_of_bounds
                    else if buf1 ! q \<noteq> NUL then
                      (case cstr buf1 q of
                         Inl err \<Rightarrow> Inl err
                       | Inr val \<Rightarrow>
                           decode buf1 nr (q + length val + 1)
                             (setenv token val (unsetenv token e)))
                    else decode buf1 nr (q + 1) (unsetenv token e))))
      else Inr (e, buf))"
  by pat_completeness auto
termination
proof (relation "measure (\<lambda>(buf, nr, p, e). length buf - p)", goal_cases)
  case 1
  show ?case by simp
next
  case (2 buf nr p e x2 buf1 p1 token q val)
  then show ?case
    by (auto simp: strsep_def Let_def split: if_splits)
next
  case (3 buf nr p e x2 buf1 p1 token q)
  then show ?case
    by (auto simp: strsep_def Let_def split: if_splits)
qed

declare decode.simps [simp del]

text \<open>
  The outer loop (line 232): \<open>while ((nr = read (pfd[0], buffer, BUFSIZ)) > 0)\<close>.
  The child's output arrives as a list of chunks, one for each read that returns
  bytes; a read stores its bytes at the start of the buffer and leaves the rest of
  the buffer as it was (the buffer is zeroed once, before the loop).  A read
  returns at most \<open>BUFSIZ\<close> bytes, and a read of no bytes is the end of the stream.
\<close>

fun read_loop :: "char list \<Rightarrow> char list list \<Rightarrow> env \<Rightarrow> error + (env \<times> char list)" where
  "read_loop buf [] e = Inr (e, buf)"
| "read_loop buf (chunk # chunks) e =
     (let nr = min (length chunk) (length buf)
      in if nr = 0 then Inr (e, buf)
         else (case decode (take nr chunk @ drop nr buf) nr 0 e of
                 Inl err \<Rightarrow> Inl err
               | Inr (e1, buf1) \<Rightarrow> read_loop buf1 chunks e1))"

subsection \<open>Plugins and the state of the host process\<close>

text \<open>
  \<open>plugin_t\<close> cells live in the heap, a finite store from addresses to cells.
  \<open>xmalloc\<close> hands out addresses that were never used before; \<open>free\<close> removes the
  cell, so that a pointer to it dangles.  \<open>plugins\<close> is the head of the list and
  \<open>None\<close> is the null pointer.
\<close>

type_synonym addr = nat
type_synonym handle_t = nat
type_synonym hook_fn = nat
type_synonym rc_hook_t = nat
type_synonym pid_t = int

record plugin_t =
  name :: string
  handle :: handle_t
  hook :: "hook_fn option"
  "next" :: "addr option"

datatype log_entry = Log_dlopen | Log_no_symbol string | Log_pipe | Log_fcntl | Log_fork

text \<open>
  One entry of \<open>dispatched\<close> for each plugin whose subprocess was forked, read to
  the end of its stream and reaped: the plugin, the hook that the child called,
  the environment the child inherited at the fork, and what \<open>rc_waitpid\<close>
  returned (the source drops that value).
\<close>

record dispatch =
  d_plugin :: addr
  d_hook :: hook_fn
  d_env :: env
  d_status :: int

record host =
  heap :: "(addr \<times> plugin_t) list"
  brk :: addr
  plugins :: "addr option"
  rc_in_plugin :: bool
  environ :: env
  dl_open :: "handle_t list"
  sigmask :: "nat set"
  elog :: "log_entry list"
  dispatched :: "dispatch list"

text \<open>
  The process at its start: \<open>plugins = NULL\<close> and \<open>rc_in_plugin = false\<close> (lines 53
  and 63), nothing allocated, nothing opened.
\<close>

definition boot :: "env \<Rightarrow> host" where
  "boot e =
     \<lparr>heap = [], brk = 0, plugins = None, rc_in_plugin = False, environ = e,
      dl_open = [], sigmask = {}, elog = [], dispatched = []\<rparr>"

definition deref :: "host \<Rightarrow> addr \<Rightarrow> error + plugin_t" where
  "deref s a =
     (case map_of (heap s) a of
        Some pl \<Rightarrow> Inr pl
      | None \<Rightarrow> Inl (if a < brk s then Use_after_free else Wild_pointer))"

text \<open>
  The new cell is uninitialised in C; the source assigns all its four fields
  before it reads any, so the model starts it with empty ones.
\<close>

definition xmalloc :: "host \<Rightarrow> addr \<times> host" where
  "xmalloc s =
     (brk s,
      s\<lparr>heap := (brk s, \<lparr>name = [], handle = 0, hook = None, next = None\<rparr>) # heap s,
        brk := Suc (brk s)\<rparr>)"

subsection \<open>rc_plugin_unload\<close>

text \<open>
  \<^verbatim>\<open>
  while (plugin) {
      next = plugin->next;
      dlclose (plugin->handle); free (plugin->name); free (plugin);
      plugin = next;
  }
  plugins = NULL;
  \<close>
  \<open>dl_open\<close> holds the handles that \<open>dlopen\<close> returned and \<open>dlclose\<close> has not
  released yet, one occurrence for each \<open>dlopen\<close>.
\<close>

function unload_loop :: "addr option \<Rightarrow> host \<Rightarrow> error + host" where
  "unload_loop plugin s =
     (case plugin of
        None \<Rightarrow> Inr s
      | Some a \<Rightarrow>
         (case deref s a of
            Inl err \<Rightarrow> Inl err
          | Inr pl \<Rightarrow>
              unload_loop (next pl)
                (s\<lparr>dl_open := remove1 (handle pl) (dl_open s),
                   heap := AList.delete a (heap s)\<rparr>)))"
  by pat_completeness auto
termination
proof (relation "measure (\<lambda>(plugin, s). length (heap s))", goal_cases)
  case 1
  show ?case by simp
next
  case (2 plugin s a pl)
  have "map_of h a \<noteq> None \<Longrightarrow> length (AList.delete a h) < length h" for h :: "(addr \<times> plugin_t) list"
    by (induction h) (auto simp: AList.delete_eq less_Suc_eq_le)
  with 2 show ?case
    by (auto simp: deref_def split: option.splits)
qed

declare unload_loop.simps [simp del]

definition rc_plugin_unload :: "host \<Rightarrow> error + host" where
  "rc_plugin_unload s =
     (case unload_loop (plugins s) s of
        Inl err \<Rightarrow> Inl err
      | Inr s' \<Rightarrow> Inr (s'\<lparr>plugins := None\<rparr>))"

subsection \<open>rc_plugin_load\<close>

text \<open>
  What the file system and the dynamic loader answer: the entries of
  \<open>RC_PLUGINDIR\<close> in the order \<open>readdir\<close> returns them (\<open>None\<close> when \<open>opendir\<close>
  fails), the handle \<open>dlopen\<close> returns for the entry of a given name, and the
  address \<open>dlfunc\<close> finds for the symbol \<open>rc_plugin_hook\<close> in a handle.
\<close>

record plugindir =
  opendir :: "string list option"
  dlopen :: "string \<Rightarrow> handle_t option"
  dlfunc :: "handle_t \<Rightarrow> hook_fn option"

text \<open>
  The body of the \<open>readdir\<close> loop (lines 97 to 125); \<open>plugin\<close> is the local
  variable of \<open>rc_plugin_load\<close> that points to the last cell of the list.
  \<^verbatim>\<open>
  if (plugin) {
      plugin->next = xmalloc (sizeof (*plugin->next));
      plugin = plugin->next;
  } else
      plugin = plugins = xmalloc (sizeof (*plugin));
  \<close>
\<close>

fun load_loop :: "plugindir \<Rightarrow> string list \<Rightarrow> addr option \<Rightarrow> host \<Rightarrow> error + host" where
  "load_loop pd [] plugin s = Inr s"
| "load_loop pd (d_name # ds) plugin s =
     (if (case d_name of [] \<Rightarrow> False | c # _ \<Rightarrow> c = CHR ''.'') then load_loop pd ds plugin s
      else
        (case dlopen pd d_name of
           None \<Rightarrow> load_loop pd ds plugin (s\<lparr>elog := elog s @ [Log_dlopen]\<rparr>)
         | Some h \<Rightarrow>
            (let s1 = s\<lparr>dl_open := h # dl_open s\<rparr>
             in case dlfunc pd h of
                  None \<Rightarrow>
                    load_loop pd ds plugin
                      (s1\<lparr>elog := elog s1 @ [Log_no_symbol d_name],
                          dl_open := remove1 h (dl_open s1)\<rparr>)
                | Some fptr \<Rightarrow>
                   (case (case plugin of
                            Some a \<Rightarrow>
                              (let (n, s2) = xmalloc s1
                               in case deref s2 a of
                                    Inl err \<Rightarrow> Inl err
                                  | Inr pl \<Rightarrow>
                                      Inr (n, s2\<lparr>heap :=
                                             AList.update a (pl\<lparr>next := Some n\<rparr>) (heap s2)\<rparr>))
                          | None \<Rightarrow>
                              (let (n, s2) = xmalloc s1
                               in Inr (n, s2\<lparr>plugins := Some n\<rparr>))) of
                      Inl err \<Rightarrow> Inl err
                    | Inr (n, s3) \<Rightarrow>
                        load_loop pd ds (Some n)
                          (s3\<lparr>heap :=
                               AList.update n
                                 \<lparr>name = d_name, handle = h, hook = Some fptr, next = None\<rparr>
                                 (heap s3)\<rparr>)))))"

text \<open>
  \<open>rc_plugin_load\<close>: the local \<open>plugin\<close> is initialised from \<open>plugins\<close> in its
  declaration (line 82), before the test of \<open>rc_in_plugin\<close> and before the call
  of \<open>rc_plugin_unload\<close> (line 92).
\<close>

definition rc_plugin_load :: "plugindir \<Rightarrow> host \<Rightarrow> error + host" where
  "rc_plugin_load pd s =
     (let plugin = plugins s
      in if rc_in_plugin s then Inr s
         else
           (case rc_plugin_unload s of
              Inl err \<Rightarrow> Inl err
            | Inr s1 \<Rightarrow>
               (case opendir pd of
                  None \<Rightarrow> Inr s1
                | Some ds \<Rightarrow> load_loop pd ds plugin s1)))"

subsection \<open>rc_waitpid\<close>

text \<open>
  The wait status macros of \<open>sys/wait.h\<close> (Linux) and \<open>EXIT_FAILURE\<close>.
\<close>

definition WIFEXITED :: "int \<Rightarrow> bool" where
  "WIFEXITED status = (status AND 0x7f = 0)"

definition WEXITSTATUS :: "int \<Rightarrow> int" where
  "WEXITSTATUS status = drop_bit 8 (status AND 0xff00)"

definition EXIT_FAILURE :: int where
  "EXIT_FAILURE = 1"

text \<open>
  \<^verbatim>\<open>
  int retval = -1;
  while ((pid = waitpid (savedpid, &status, 0)) > 0) {
      if (pid == savedpid)
          retval = WIFEXITED (status) ? WEXITSTATUS (status) : EXIT_FAILURE;
  }
  return (retval);
  \<close>
  The first argument lists what the successive calls of \<open>waitpid\<close> return, as
  pairs of the pid returned and the status stored; after the last of them
  \<open>waitpid\<close> returns \<open>-1\<close> (no child is left to wait for).
\<close>

fun waitpid_loop :: "(pid_t \<times> int) list \<Rightarrow> pid_t \<Rightarrow> int \<Rightarrow> int" where
  "waitpid_loop [] savedpid retval = retval"
| "waitpid_loop ((pid, status) # rs) savedpid retval =
     (if pid > 0 then
        waitpid_loop rs savedpid
          (if pid = savedpid
           then (if WIFEXITED status then WEXITSTATUS status else EXIT_FAILURE)
           else retval)
      else retval)"

definition rc_waitpid :: "(pid_t \<times> int) list \<Rightarrow> pid_t \<Rightarrow> int" where
  "rc_waitpid rs pid = waitpid_loop rs pid (-1)"

subsection \<open>rc_plugin_run\<close>

text \<open>
  How a forked child ends: the hook returns \<open>r\<close> and the child calls \<open>exit (r)\<close>,
  or a signal (numbered from 1 to 127) kills it.  \<open>wstatus\<close> is the wait status
  the kernel reports then: the low eight bits of the exit code in bits 8 to 15,
  or the signal number in the low seven bits.
\<close>

datatype ending = Returned int | Killed nat

fun wstatus :: "ending \<Rightarrow> int" where
  "wstatus (Returned r) = push_bit 8 (r mod 256)"
| "wstatus (Killed sig) = int sig mod 128"

record child_run =
  chunks :: "char list list"
  ending :: ending

text \<open>
  What the operating system and the plugins do during a run, for the plugin
  at a given address: whether \<open>pipe\<close> succeeds, whether the two \<open>fcntl\<close> calls on
  \<open>pfd[i]\<close> succeed, what \<open>fork\<close> returns in the parent (\<open>None\<close> for \<open>-1\<close>), and what
  the child does with the hook it calls, given the hook type, the value and the
  environment it inherited: the chunks the parent's reads return, and how it
  ends.  The child is reaped by nobody but \<open>rc_waitpid\<close>.
\<close>

record os =
  BUFSIZ :: nat
  pipe_ok :: "addr \<Rightarrow> bool"
  fcntl_ok :: "addr \<Rightarrow> nat \<Rightarrow> bool"
  fork :: "addr \<Rightarrow> pid_t option"
  child :: "hook_fn \<Rightarrow> rc_hook_t \<Rightarrow> string \<Rightarrow> env \<Rightarrow> child_run"

datatype step = Next host | Exit host | Crash error

text \<open>
  The body of the loop over the plugins (lines 164 to 251), in the parent:
  \<open>Next\<close> goes on with \<open>plugin->next\<close>, \<open>Exit\<close> is the \<open>return\<close> after a failed
  \<open>pipe\<close> and the \<open>break\<close> after a failed \<open>fork\<close>.  The signal mask is set to the
  full set before the fork and restored after it in the parent; the \<open>break\<close>
  leaves it full.
\<close>

definition run_body :: "os \<Rightarrow> rc_hook_t \<Rightarrow> string \<Rightarrow> addr \<Rightarrow> plugin_t \<Rightarrow> host \<Rightarrow> step" where
  "run_body sys hk val a pl s =
     (case hook pl of
        None \<Rightarrow> Next s
      | Some f \<Rightarrow>
          if \<not> pipe_ok sys a then Exit (s\<lparr>elog := elog s @ [Log_pipe]\<rparr>)
          else
            (let s1 = s\<lparr>elog := elog s @ map (\<lambda>i. Log_fcntl)
                                          (filter (\<lambda>i. \<not> fcntl_ok sys a i) [0, 1])\<rparr>;
                 old = sigmask s1;
                 s2 = s1\<lparr>sigmask := UNIV\<rparr>
             in case fork sys a of
                  None \<Rightarrow> Exit (s2\<lparr>elog := elog s2 @ [Log_fork]\<rparr>)
                | Some pid \<Rightarrow>
                   (let s3 = s2\<lparr>sigmask := old\<rparr>;
                        run = child sys f hk val (environ s3)
                    in case read_loop (replicate (BUFSIZ sys) NUL) (chunks run) (environ s3) of
                         Inl err \<Rightarrow> Crash err
                       | Inr (e, buffer) \<Rightarrow>
                           Next (s3\<lparr>environ := e,
                                    dispatched := dispatched s3 @
                                      [\<lparr>d_plugin = a, d_hook = f, d_env = environ s3,
                                        d_status =
                                          rc_waitpid [(pid, wstatus (ending run))] pid\<rparr>]\<rparr>))))"

text \<open>
  The loop \<open>while (plugin)\<close> follows the \<open>next\<close> pointers; on a cyclic list it does
  not end, which is the value \<open>None\<close>.
\<close>

partial_function (option) run_loop ::
  "os \<Rightarrow> rc_hook_t \<Rightarrow> string \<Rightarrow> addr option \<Rightarrow> host \<Rightarrow> (error + host) option" where
  "run_loop sys hk val plugin s =
     (case plugin of
        None \<Rightarrow> Some (Inr s)
      | Some a \<Rightarrow>
         (case deref s a of
            Inl err \<Rightarrow> Some (Inl err)
          | Inr pl \<Rightarrow>
             (case run_body sys hk val a pl s of
                Crash err \<Rightarrow> Some (Inl err)
              | Exit s' \<Rightarrow> Some (Inr s')
              | Next s' \<Rightarrow> run_loop sys hk val (next pl) s')))"

definition rc_plugin_run :: "os \<Rightarrow> rc_hook_t \<Rightarrow> string \<Rightarrow> host \<Rightarrow> (error + host) option" where
  "rc_plugin_run sys hk val s =
     (if rc_in_plugin s then Some (Inr s) else run_loop sys hk val (plugins s) s)"

subsection \<open>The list of plugins that the heap holds\<close>

text \<open>
  \<open>plugin_list h p cells\<close>: following \<open>next\<close> from \<open>p\<close> in the heap \<open>h\<close> visits the
  cells \<open>cells\<close>, each with its address, and ends at the null pointer.
\<close>

fun plugin_list :: "(addr \<times> plugin_t) list \<Rightarrow> addr option \<Rightarrow> (addr \<times> plugin_t) list \<Rightarrow> bool" where
  "plugin_list h p [] = (p = None)"
| "plugin_list h p ((a, pl) # cells) =
     (p = Some a \<and> map_of h a = Some pl \<and> plugin_list h (next pl) cells)"

text \<open>
  The loop of \<open>rc_plugin_run\<close> over a list of cells that is already known, and how
  a run ends.
\<close>

fun run_cells :: "os \<Rightarrow> rc_hook_t \<Rightarrow> string \<Rightarrow> (addr \<times> plugin_t) list \<Rightarrow> host \<Rightarrow> step" where
  "run_cells sys hk val [] s = Next s"
| "run_cells sys hk val ((a, pl) # cells) s =
     (case run_body sys hk val a pl s of
        Next s' \<Rightarrow> run_cells sys hk val cells s'
      | Exit s' \<Rightarrow> Exit s'
      | Crash err \<Rightarrow> Crash err)"

fun finish :: "step \<Rightarrow> error + host" where
  "finish (Next s) = Inr s"
| "finish (Exit s) = Inr s"
| "finish (Crash err) = Inl err"

definition eligible :: "(addr \<times> plugin_t) list \<Rightarrow> addr list" where
  "eligible cells = map fst (filter (\<lambda>c. hook (snd c) \<noteq> None) cells)"

text \<open>
  \<open>env_after sys hk val d\<close>: the environment of the host once the output of the
  child of dispatch \<open>d\<close> is decoded, from the environment that child inherited.
  \<open>chained\<close>: each dispatch of the list starts from the environment the one
  before it left.
\<close>

definition env_after :: "os \<Rightarrow> rc_hook_t \<Rightarrow> string \<Rightarrow> dispatch \<Rightarrow> env option" where
  "env_after sys hk val d =
     (case read_loop (replicate (BUFSIZ sys) NUL)
             (chunks (child sys (d_hook d) hk val (d_env d))) (d_env d) of
        Inl err \<Rightarrow> None
      | Inr (e, buffer) \<Rightarrow> Some e)"

fun chained :: "(dispatch \<Rightarrow> env option) \<Rightarrow> env \<Rightarrow> dispatch list \<Rightarrow> env \<Rightarrow> bool" where
  "chained nxt e [] e' = (e = e')"
| "chained nxt e (d # ds) e' =
     (d_env d = e \<and> (case nxt d of None \<Rightarrow> False | Some e1 \<Rightarrow> chained nxt e1 ds e'))"

subsection \<open>Loading in the words of the specification\<close>

text \<open>
  Entries whose name begins with \<open>.\<close> are skipped; an entry that cannot be opened
  is skipped; an entry whose hook symbol is not resolved is skipped; each other
  entry gives a plugin with its name, handle and hook, in the order of the scan.
\<close>

fun loaded :: "plugindir \<Rightarrow> string list \<Rightarrow> (string \<times> handle_t \<times> hook_fn) list" where
  "loaded pd [] = []"
| "loaded pd (d_name # ds) =
     (if take 1 d_name = ''.'' then loaded pd ds
      else
        (case dlopen pd d_name of
           None \<Rightarrow> loaded pd ds
         | Some h \<Rightarrow>
            (case dlfunc pd h of
               None \<Rightarrow> loaded pd ds
             | Some fptr \<Rightarrow> (d_name, h, fptr) # loaded pd ds)))"

definition record_of :: "addr \<times> plugin_t \<Rightarrow> string \<times> handle_t \<times> hook_fn option" where
  "record_of c = (name (snd c), handle (snd c), hook (snd c))"

subsection \<open>The protocol in the words of the specification\<close>

text \<open>
  A unit of the protocol is the string \<open>KEY=VALUE\<close> followed by NUL; \<open>KEY\<close> holds
  neither \<open>=\<close> nor NUL and \<open>VALUE\<close> holds no NUL.  Its meaning: \<open>KEY\<close> is unset,
  and set again to \<open>VALUE\<close> when \<open>VALUE\<close> is not empty.
\<close>

definition encode :: "string \<times> string \<Rightarrow> char list" where
  "encode kv = fst kv @ CHR ''='' # snd kv @ [NUL]"

definition wf_record :: "string \<times> string \<Rightarrow> bool" where
  "wf_record kv =
     (CHR ''='' \<notin> set (fst kv) \<and> NUL \<notin> set (fst kv) \<and> NUL \<notin> set (snd kv))"

definition apply_record :: "env \<Rightarrow> string \<times> string \<Rightarrow> env" where
  "apply_record e kv =
     (if snd kv = [] then unsetenv (fst kv) e
      else setenv (fst kv) (snd kv) (unsetenv (fst kv) e))"

subsection \<open>Invariants and the states of the examples\<close>

text \<open>
  \<open>status_ok\<close>: the status recorded for a dispatch is what \<open>rc_waitpid\<close> returns
  for the pid that \<open>fork\<close> gave, when the kernel reports the end of that child.
  \<open>heap_ok\<close>: every allocated address is below the next fresh one.
\<close>

definition status_ok :: "os \<Rightarrow> rc_hook_t \<Rightarrow> string \<Rightarrow> dispatch \<Rightarrow> bool" where
  "status_ok sys hk val d =
     (case fork sys (d_plugin d) of
        None \<Rightarrow> False
      | Some pid \<Rightarrow>
          d_status d =
            rc_waitpid [(pid, wstatus (ending (child sys (d_hook d) hk val (d_env d))))] pid)"

definition heap_ok :: "host \<Rightarrow> bool" where
  "heap_ok s = (\<forall>a\<in>fst ` set (heap s). a < brk s)"

text \<open>
  The state after \<open>rc_plugin_load\<close> has loaded \<open>a.so\<close> and \<open>b.so\<close> into the
  process at its start, and a system in which every call succeeds: the hook of
  \<open>a.so\<close> writes \<open>X=1\<close> and returns 7, the hook of \<open>b.so\<close> writes nothing and
  returns 0.
\<close>

definition two_cells :: "(addr \<times> plugin_t) list" where
  "two_cells =
     [(0, \<lparr>name = ''a.so'', handle = 1, hook = Some 10, next = Some 1\<rparr>),
      (1, \<lparr>name = ''b.so'', handle = 2, hook = Some 20, next = None\<rparr>)]"

definition two_plugins :: host where
  "two_plugins =
     (boot Map.empty)\<lparr>heap := rev two_cells, brk := 2, plugins := Some 0, dl_open := [2, 1]\<rparr>"

definition quiet_os :: os where
  "quiet_os =
     \<lparr>BUFSIZ = 8192, pipe_ok = (\<lambda>a. True), fcntl_ok = (\<lambda>a i. True),
      fork = (\<lambda>a. Some (100 + int a)),
      child = (\<lambda>f hk val e.
        if f = 10 then \<lparr>chunks = [''X=1'' @ [NUL]], ending = Returned 7\<rparr>
        else \<lparr>chunks = [], ending = Returned 0\<rparr>)\<rparr>"

text \<open>
  A plugin directory of three files; \<open>bad.so\<close> opens but does not export the
  hook symbol.
\<close>

definition three_files :: plugindir where
  "three_files =
     \<lparr>opendir = Some [''.'', ''..'', ''a.so'', ''bad.so'', ''b.so''],
      dlopen = (\<lambda>d. if d = ''a.so'' then Some 1 else if d = ''b.so'' then Some 2
                    else if d = ''bad.so'' then Some 3 else None),
      dlfunc = (\<lambda>h. if h = 1 then Some 10 else if h = 2 then Some 20 else None)\<rparr>"

section \<open>The environment channel\<close>

subsection \<open>Strings in the buffer\<close>

lemma cstr_at:
  assumes "NUL \<notin> set str"
  shows "cstr (pre @ str @ NUL # rest) (length pre) = Inr str"
proof -
  have "takeWhile (\<lambda>c. c \<noteq> NUL) (str @ NUL # rest) = str"
    using assms by (induction str) auto
  then show ?thesis
    by (simp add: cstr_def)
qed

lemma strsep_at_delim:
  assumes "CHR ''='' \<notin> set k" "NUL \<notin> set k"
  shows "strsep (pre @ k @ CHR ''='' # rest) (length pre)
           = Inr (pre @ k @ NUL # rest, Some (length pre + length k + 1))"
proof -
  have "takeWhile (\<lambda>c. c \<noteq> CHR ''='' \<and> c \<noteq> NUL) (k @ CHR ''='' # rest) = k"
    using assms by (induction k) auto
  then show ?thesis
    by (simp add: strsep_def nth_append list_update_append)
qed

lemma strsep_at_end:
  assumes "CHR ''='' \<notin> set t" "NUL \<notin> set t"
  shows "strsep (pre @ t @ NUL # rest) (length pre) = Inr (pre @ t @ NUL # rest, None)"
proof -
  have "takeWhile (\<lambda>c. c \<noteq> CHR ''='' \<and> c \<noteq> NUL) (t @ NUL # rest) = t"
    using assms by (induction t) auto
  then show ?thesis
    by (simp add: strsep_def nth_append)
qed

subsection \<open>Chunks of whole records\<close>

lemma decode_stop: "nr \<le> p \<Longrightarrow> p < length buf \<Longrightarrow> decode buf nr p e = Inr (e, buf)"
  by (simp add: decode.simps)

lemma decode_record:
  assumes wf: "wf_record (k, v)"
    and nr: "length pre + length (encode (k, v)) \<le> nr"
  shows "decode (pre @ encode (k, v) @ rest) nr (length pre) e
           = decode ((pre @ k @ NUL # v @ [NUL]) @ rest) nr
               (length (pre @ k @ NUL # v @ [NUL])) (apply_record e (k, v))"
proof -
  let ?buf = "pre @ k @ CHR ''='' # v @ NUL # rest"
  let ?buf1 = "pre @ k @ NUL # v @ NUL # rest"
  have k: "CHR ''='' \<notin> set k" "NUL \<notin> set k" and v: "NUL \<notin> set v"
    using wf by (simp_all add: wf_record_def)
  have first: "?buf ! length pre \<noteq> NUL"
    using k by (cases k) (auto simp: nth_append)
  have guard: "\<not> length ?buf \<le> length pre \<and> ?buf ! length pre \<noteq> NUL \<and> length pre < nr"
    using first nr by (simp add: encode_def)
  have sep: "strsep ?buf (length pre) = Inr (?buf1, Some (length pre + length k + 1))"
    using strsep_at_delim [OF k, of pre "v @ NUL # rest"] by simp
  have tok: "cstr ?buf1 (length pre) = Inr k"
    using cstr_at [OF k(2), of pre "v @ NUL # rest"] by simp
  have val: "cstr ?buf1 (length pre + length k + 1) = Inr v"
    using cstr_at [OF v, of "pre @ k @ [NUL]" rest] by simp
  have at_q: "?buf1 ! (length pre + length k + 1) = (v @ NUL # rest) ! 0"
    using nth_append_length_plus [of "pre @ k @ [NUL]" "v @ NUL # rest" 0] by simp
  have q_in: "\<not> length ?buf1 \<le> length pre + length k + 1"
    by simp
  show ?thesis
  proof (cases "v = []")
    case True
    then have "?buf1 ! (length pre + length k + 1) = NUL"
      using at_q by simp
    then show ?thesis
      using guard sep tok True
      by (subst decode.simps) (simp add: encode_def apply_record_def)
  next
    case False
    then have "?buf1 ! (length pre + length k + 1) \<noteq> NUL"
      using at_q v by (cases v) auto
    then show ?thesis
      using guard sep tok val False q_in
      by (subst decode.simps) (simp add: encode_def apply_record_def add.assoc)
  qed
qed

lemma decode_records:
  assumes "\<forall>kv\<in>set recs. wf_record kv"
    and "buf = pre @ concat (map encode recs) @ rest"
    and "p = length pre"
    and "nr = p + length (concat (map encode recs))"
    and "rest \<noteq> []"
  shows "\<exists>buf'. decode buf nr p e = Inr (foldl apply_record e recs, buf')
              \<and> length buf' = length buf"
  using assms
proof (induction recs arbitrary: buf pre p e)
  case Nil
  then show ?case by (simp add: decode_stop)
next
  case (Cons kv recs)
  obtain k v where kv: "kv = (k, v)" by (cases kv)
  let ?pre = "pre @ k @ NUL # v @ [NUL]"
  let ?tail = "concat (map encode recs)"
  have wf: "wf_record (k, v)" and wfs: "\<forall>kv\<in>set recs. wf_record kv"
    using Cons.prems(1) kv by simp_all
  have buf: "buf = pre @ encode (k, v) @ (?tail @ rest)"
    using Cons.prems(2) kv by simp
  have len: "length ?pre = p + length (encode (k, v))"
    using Cons.prems(3) by (simp add: encode_def)
  have nr: "nr = length ?pre + length ?tail"
    using Cons.prems(4) kv len by simp
  have step: "decode buf nr p e
        = decode (?pre @ (?tail @ rest)) nr (length ?pre) (apply_record e (k, v))"
    unfolding buf Cons.prems(3)
    by (rule decode_record [OF wf]) (simp add: nr encode_def)
  obtain buf' where
    rest: "decode (?pre @ (?tail @ rest)) nr (length ?pre) (apply_record e (k, v))
             = Inr (foldl apply_record (apply_record e (k, v)) recs, buf')"
    and len': "length buf' = length (?pre @ (?tail @ rest))"
    using Cons.IH [of "?pre @ (?tail @ rest)" ?pre "length ?pre" "apply_record e (k, v)"] wfs nr
      Cons.prems(5)
    by auto
  have "length (?pre @ (?tail @ rest)) = length buf"
    unfolding buf by (simp add: encode_def)
  then show ?case
    using step rest len' kv by simp
qed

text \<open>
  Claim C3, as the code has it.  When every chunk that a read returns is made of
  whole records \<open>KEY=VALUE\<close>, each ended by NUL, and is shorter than the buffer,
  the decoder splits each record at its first \<open>=\<close>, calls \<open>unsetenv\<close> on the key
  and then, if and only if the rest is not empty, \<open>setenv\<close> with the rest: the
  environment after the stream is the one obtained by applying the records in
  their order.  (A chunk that fills the whole buffer is left out: there the loop
  condition reads past the buffer.)
\<close>

theorem read_loop_whole_records:
  assumes "\<forall>rs\<in>set rss. rs \<noteq> [] \<and> length (concat (map encode rs)) < length buf
             \<and> (\<forall>kv\<in>set rs. wf_record kv)"
  shows "\<exists>buf'. read_loop buf (map (\<lambda>rs. concat (map encode rs)) rss) e
                = Inr (foldl apply_record e (concat rss), buf')"
  using assms
proof (induction rss arbitrary: buf e)
  case Nil
  then show ?case by simp
next
  case (Cons rs rss)
  define chunk where "chunk = concat (map encode rs)"
  have rs: "rs \<noteq> []" "length chunk < length buf" "\<forall>kv\<in>set rs. wf_record kv"
    using Cons.prems by (simp_all add: chunk_def)
  have nonempty: "chunk \<noteq> []"
    using rs(1) by (cases rs) (simp_all add: chunk_def encode_def)
  have nr: "min (length chunk) (length buf) = length chunk"
    using rs(2) by simp
  obtain buf1 where
    dec: "decode (chunk @ drop (length chunk) buf) (length chunk) 0 e
            = Inr (foldl apply_record e rs, buf1)"
    and len: "length buf1 = length (chunk @ drop (length chunk) buf)"
    using decode_records [OF rs(3), of "chunk @ drop (length chunk) buf" "[]"
        "drop (length chunk) buf" 0 "length chunk" e] rs(2)
    by (auto simp: chunk_def)
  have len1: "length buf1 = length buf"
    using len rs(2) by simp
  obtain buf' where
    "read_loop buf1 (map (\<lambda>rs. concat (map encode rs)) rss) (foldl apply_record e rs)
       = Inr (foldl apply_record (foldl apply_record e rs) (concat rss), buf')"
    using Cons.IH [of buf1 "foldl apply_record e rs"] Cons.prems len1 by auto
  moreover have "map (\<lambda>rs. concat (map encode rs)) (rs # rss)
                   = chunk # map (\<lambda>rs. concat (map encode rs)) rss"
    by (simp add: chunk_def)
  ultimately show ?case
    using dec nonempty nr by (simp add: Let_def)
qed

text \<open>
  The stream \<open>FOO=bar\<close> NUL \<open>BAZ=\<close> NUL, read as one chunk into a zeroed buffer of
  8192 bytes, in an environment where \<open>BAZ\<close> was set: \<open>FOO\<close> is set to \<open>bar\<close> and
  \<open>BAZ\<close> is unset.
\<close>

theorem read_loop_whole_records_witness:
  "wf_record (''FOO'', ''bar'') \<and> wf_record (''BAZ'', [])
   \<and> length (concat (map encode [(''FOO'', ''bar''), (''BAZ'', [])]))
        < length (replicate 8192 NUL)
   \<and> (\<exists>buf'. read_loop (replicate 8192 NUL)
                 (map (\<lambda>rs. concat (map encode rs)) [[(''FOO'', ''bar''), (''BAZ'', [])]])
                 [''BAZ'' \<mapsto> ''old'']
               = Inr (foldl apply_record [''BAZ'' \<mapsto> ''old'']
                        (concat [[(''FOO'', ''bar''), (''BAZ'', [])]]), buf'))
   \<and> map (\<lambda>rs. concat (map encode rs)) [[(''FOO'', ''bar''), (''BAZ'', [])]]
        = [''FOO=bar'' @ NUL # ''BAZ='' @ [NUL]]
   \<and> foldl apply_record [''BAZ'' \<mapsto> ''old'']
        (concat [[(''FOO'', ''bar''), (''BAZ'', [])]]) ''FOO'' = Some ''bar''
   \<and> foldl apply_record [''BAZ'' \<mapsto> ''old'']
        (concat [[(''FOO'', ''bar''), (''BAZ'', [])]]) ''BAZ'' = None"
proof -
  have h: "\<forall>rs\<in>set [[(''FOO'', ''bar''), (''BAZ'', [])]].
      rs \<noteq> [] \<and> length (concat (map encode rs)) < length (replicate 8192 NUL)
        \<and> (\<forall>kv\<in>set rs. wf_record kv)"
    by (simp add: encode_def wf_record_def)
  have enc: "map (\<lambda>rs. concat (map encode rs)) [[(''FOO'', ''bar''), (''BAZ'', [])]]
        = [''FOO=bar'' @ NUL # ''BAZ='' @ [NUL]]"
    by (simp add: encode_def)
  have foo: "foldl apply_record [''BAZ'' \<mapsto> ''old'']
        (concat [[(''FOO'', ''bar''), (''BAZ'', [])]]) ''FOO'' = Some ''bar''"
    by (simp add: apply_record_def setenv_def unsetenv_def valid_name_def)
  have baz: "foldl apply_record [''BAZ'' \<mapsto> ''old'']
        (concat [[(''FOO'', ''bar''), (''BAZ'', [])]]) ''BAZ'' = None"
    by (simp add: apply_record_def setenv_def unsetenv_def valid_name_def)
  have wf: "wf_record (''FOO'', ''bar'')" "wf_record (''BAZ'', [])"
    by (simp_all add: wf_record_def)
  have len: "length (concat (map encode [(''FOO'', ''bar''), (''BAZ'', [])]))
        < length (replicate 8192 NUL)"
    by (simp add: encode_def)
  show ?thesis
    by (intro conjI wf len enc foo baz read_loop_whole_records [OF h])
qed

text \<open>
  Claim C3, as it is stated, fails: a record that lies within one chunk is not
  decoded when the chunk does not start at a record.  The stream \<open>AA=b\<close> NUL
  \<open>FOO=bar\<close> NUL arrives in two reads, \<open>AA=b\<close> and then NUL \<open>FOO=bar\<close> NUL.  The
  second chunk starts with the NUL that ends the first record, the loop
  condition \<open>*p\<close> is false at once, and \<open>FOO=bar\<close>, which lies within the second
  chunk, is never decoded: \<open>FOO\<close> stays unset.
\<close>

theorem record_after_split_record_counterexample:
  "read_loop (replicate 8192 NUL) [''AA=b'', NUL # ''FOO=bar'' @ [NUL]] Map.empty
     = Inr ([''AA'' \<mapsto> ''b''], NUL # ''FOO=bar'' @ NUL # replicate 8183 NUL)"
  by (simp add: decode.simps strsep_def cstr_def setenv_def unsetenv_def valid_name_def)

text \<open>
  Claim C4.  A chunk that starts with a record without \<open>=\<close> (a non-empty string
  without \<open>=\<close>, ended by NUL inside the chunk) makes \<open>strsep\<close> set \<open>p\<close> to the null
  pointer, and the test \<open>if (*p)\<close> dereferences it: the decoder does not return
  an environment.
\<close>

theorem record_without_delimiter_null_deref:
  assumes "t \<noteq> []" "CHR ''='' \<notin> set t" "NUL \<notin> set t"
    and "length (t @ NUL # rest) \<le> length buf"
  shows "read_loop buf ((t @ NUL # rest) # later) e = Inl Null_deref"
proof -
  let ?chunk = "t @ NUL # rest"
  let ?buf = "?chunk @ drop (length ?chunk) buf"
  have nr: "min (length ?chunk) (length buf) = length ?chunk"
    using assms(4) by simp
  have first: "?buf ! 0 \<noteq> NUL"
    using assms(1,3) by (cases t) auto
  have sep: "strsep ?buf 0 = Inr (?buf, None)"
    using strsep_at_end [OF assms(2,3), of "[]" "rest @ drop (length ?chunk) buf"] by simp
  have tok: "cstr ?buf 0 = Inr t"
    using cstr_at [OF assms(3), of "[]" "rest @ drop (length ?chunk) buf"] by simp
  have "decode ?buf (length ?chunk) 0 e = Inl Null_deref"
    using first sep tok by (subst decode.simps) simp
  then show ?thesis
    using nr by (simp add: Let_def del: append.simps)
qed

theorem record_without_delimiter_null_deref_witness:
  "''JUNK'' \<noteq> [] \<and> CHR ''='' \<notin> set ''JUNK'' \<and> NUL \<notin> set ''JUNK''
   \<and> length (''JUNK'' @ NUL # []) \<le> length (replicate 8192 NUL)
   \<and> read_loop (replicate 8192 NUL) [''JUNK'' @ [NUL]] Map.empty = Inl Null_deref"
  using record_without_delimiter_null_deref [of "''JUNK''" "[]" "replicate 8192 NUL" "[]" Map.empty]
  by simp

section \<open>Waiting for a child\<close>

lemma waitpid_loop_matches:
  "waitpid_loop rs pid retval =
     (case filter (\<lambda>r. fst r = pid) (takeWhile (\<lambda>r. 0 < fst r) rs) of
        [] \<Rightarrow> retval
      | m # ms \<Rightarrow>
          (let status = snd (last (m # ms))
           in if WIFEXITED status then WEXITSTATUS status else EXIT_FAILURE))"
proof (induction rs arbitrary: retval)
  case Nil
  then show ?case by simp
next
  case (Cons r rs)
  obtain p st where r: "r = (p, st)" by (cases r)
  show ?case
    unfolding r by (simp add: Cons.IH Let_def split: list.splits)
qed

text \<open>
  Claim C7.  \<open>rc_waitpid\<close> goes on calling \<open>waitpid\<close> as long as it returns a
  positive pid.  If none of the pids returned is the given one, the result is -1.
  Otherwise it is computed from the status stored with the given pid (the last
  time, should the kernel return it more than once): the exit code when the
  child exited, \<open>EXIT_FAILURE\<close> when it ended in another way.
\<close>

theorem rc_waitpid_result:
  "rc_waitpid rs pid =
     (case filter (\<lambda>r. fst r = pid) (takeWhile (\<lambda>r. 0 < fst r) rs) of
        [] \<Rightarrow> - 1
      | m # ms \<Rightarrow>
          (let status = snd (last (m # ms))
           in if WIFEXITED status then WEXITSTATUS status else EXIT_FAILURE))"
  unfolding rc_waitpid_def by (rule waitpid_loop_matches)

text \<open>
  A child that exits with code 7 after another child was reaped, a child killed
  by signal 9, and a pid that \<open>waitpid\<close> never returns.
\<close>

theorem rc_waitpid_result_witness:
  "rc_waitpid [(4, 0x300), (9, 0x700)] 9 = 7 \<and> rc_waitpid [(9, 9)] 9 = EXIT_FAILURE
   \<and> rc_waitpid [(4, 0)] 9 = - 1"
  using rc_waitpid_result [of "[(4, 0x300), (9, 0x700)]" 9] rc_waitpid_result [of "[(9, 9)]" 9]
    rc_waitpid_result [of "[(4, 0)]" 9]
  by (simp add: WIFEXITED_def WEXITSTATUS_def)

text \<open>The wait status of a child that called \<open>exit (r)\<close>.\<close>

lemma wstatus_low_bits: "push_bit 8 (x::int) AND 0x7f = 0"
proof -
  have "(0x7f::int) = mask 7"
    by (simp add: mask_eq_exp_minus_1)
  then show ?thesis
    by (simp add: bit_eq_iff bit_simps; auto)
qed

lemma wstatus_exit_code: "drop_bit 8 (push_bit 8 (r mod 256) AND (0xff00::int)) = r mod 256"
proof -
  have "drop_bit 8 (push_bit 8 (r mod 256) AND (0xff00::int))
          = drop_bit 8 (push_bit 8 (r mod 256)) AND drop_bit 8 (0xff00::int)"
    by (simp only: drop_bit_and)
  also have "drop_bit 8 (push_bit 8 (r mod 256)) = r mod 256"
    by (simp add: drop_bit_push_bit)
  also have "drop_bit 8 (0xff00::int) = mask 8"
    by (simp add: drop_bit_eq_div mask_eq_exp_minus_1)
  also have "(r mod 256) AND mask 8 = r mod 256"
    by (simp add: take_bit_eq_mod flip: take_bit_eq_mask)
  finally show ?thesis .
qed

lemma wstatus_Returned:
  "WIFEXITED (wstatus (Returned r)) \<and> WEXITSTATUS (wstatus (Returned r)) = r mod 256"
  unfolding WIFEXITED_def WEXITSTATUS_def wstatus.simps
  by (rule conjI [OF wstatus_low_bits wstatus_exit_code])

lemma rc_waitpid_Returned:
  assumes "0 < pid"
  shows "rc_waitpid [(pid, wstatus (Returned r))] pid = r mod 256"
  using assms wstatus_Returned [of r] by (simp add: rc_waitpid_def)

section \<open>The guard against running inside a plugin\<close>

text \<open>
  Claim C9.  With \<open>rc_in_plugin\<close> true, \<open>rc_plugin_load\<close> and \<open>rc_plugin_run\<close>
  return at once and the whole state of the host (the registry, the handles,
  the environment) is as it was.
\<close>

theorem in_plugin_noop:
  assumes "rc_in_plugin s"
  shows "rc_plugin_load pd s = Inr s \<and> rc_plugin_run sys hk val s = Some (Inr s)"
  using assms by (simp add: rc_plugin_load_def rc_plugin_run_def)

theorem in_plugin_noop_witness:
  "rc_in_plugin (two_plugins\<lparr>rc_in_plugin := True\<rparr>)
   \<and> rc_plugin_load \<lparr>opendir = Some [''c.so''], dlopen = (\<lambda>d. Some 3), dlfunc = (\<lambda>h. Some 30)\<rparr>
        (two_plugins\<lparr>rc_in_plugin := True\<rparr>)
      = Inr (two_plugins\<lparr>rc_in_plugin := True\<rparr>)
   \<and> rc_plugin_run quiet_os 0 [] (two_plugins\<lparr>rc_in_plugin := True\<rparr>)
      = Some (Inr (two_plugins\<lparr>rc_in_plugin := True\<rparr>))"
  using in_plugin_noop [of "two_plugins\<lparr>rc_in_plugin := True\<rparr>"
      "\<lparr>opendir = Some [''c.so''], dlopen = (\<lambda>d. Some 3), dlfunc = (\<lambda>h. Some 30)\<rparr>"
      quiet_os 0 "[]"]
  by simp

section \<open>Running the plugins\<close>

subsection \<open>The loop over the cells of the list\<close>

lemma run_body_Next_frame:
  assumes "run_body sys hk val a pl s = Next s'"
  shows "heap s' = heap s \<and> brk s' = brk s \<and> plugins s' = plugins s
           \<and> rc_in_plugin s' = rc_in_plugin s"
  using assms
  by (auto simp: run_body_def Let_def split: option.splits if_splits sum.splits)

lemma run_loop_cells:
  "plugin_list (heap s) p cells \<Longrightarrow>
     run_loop sys hk val p s = Some (finish (run_cells sys hk val cells s))"
proof (induction cells arbitrary: p s)
  case Nil
  then show ?case
    by (subst run_loop.simps) simp
next
  case (Cons c cells)
  obtain a pl where c: "c = (a, pl)" by (cases c)
  have p: "p = Some a" and cell: "map_of (heap s) a = Some pl"
    and tl: "plugin_list (heap s) (next pl) cells"
    using Cons.prems c by simp_all
  show ?case
  proof (cases "run_body sys hk val a pl s")
    case (Next s')
    then have "heap s' = heap s"
      by (simp add: run_body_Next_frame)
    then have "run_loop sys hk val (next pl) s' = Some (finish (run_cells sys hk val cells s'))"
      using Cons.IH [of s' "next pl"] tl by simp
    then show ?thesis
      using p cell c Next by (subst run_loop.simps) (simp add: deref_def)
  next
    case (Exit s')
    then show ?thesis
      using p cell c by (subst run_loop.simps) (simp add: deref_def)
  next
    case (Crash err)
    then show ?thesis
      using p cell c by (subst run_loop.simps) (simp add: deref_def)
  qed
qed

lemma rc_plugin_run_cells:
  assumes "plugin_list (heap s) (plugins s) cells" "\<not> rc_in_plugin s"
  shows "rc_plugin_run sys hk val s = Some (finish (run_cells sys hk val cells s))"
  using assms by (simp add: rc_plugin_run_def run_loop_cells)

lemma run_cells_append:
  "run_cells sys hk val (xs @ ys) s =
     (case run_cells sys hk val xs s of
        Next s' \<Rightarrow> run_cells sys hk val ys s'
      | Exit s' \<Rightarrow> Exit s'
      | Crash err \<Rightarrow> Crash err)"
  by (induction xs arbitrary: s) (auto split: step.splits)

subsection \<open>What one pass through the body records\<close>

lemma run_body_Next:
  assumes "run_body sys hk val a pl s = Next s'"
  shows "(hook pl = None \<and> s' = s) \<or>
         (\<exists>d. hook pl = Some (d_hook d) \<and> d_plugin d = a \<and> d_env d = environ s
              \<and> dispatched s' = dispatched s @ [d]
              \<and> env_after sys hk val d = Some (environ s')
              \<and> status_ok sys hk val d)"
proof (cases "hook pl")
  case None
  then show ?thesis
    using assms by (simp add: run_body_def)
next
  case (Some f)
  obtain pid e buffer where pipe: "pipe_ok sys a" and pid: "fork sys a = Some pid"
    and rd: "read_loop (replicate (BUFSIZ sys) NUL)
               (chunks (child sys f hk val (environ s))) (environ s) = Inr (e, buffer)"
    using assms Some
    by (auto simp: run_body_def Let_def split: option.splits if_splits sum.splits)
  define d where "d = \<lparr>d_plugin = a, d_hook = f, d_env = environ s,
    d_status = rc_waitpid [(pid, wstatus (ending (child sys f hk val (environ s))))] pid\<rparr>"
  have "dispatched s' = dispatched s @ [d]" "environ s' = e"
    using assms Some pipe pid rd by (auto simp: run_body_def Let_def d_def)
  moreover have "env_after sys hk val d = Some e"
    using rd by (simp add: env_after_def d_def)
  moreover have "status_ok sys hk val d"
    using pid by (simp add: status_ok_def d_def)
  ultimately show ?thesis
    using Some by (auto simp: d_def intro!: exI [of _ d])
qed

lemma run_body_Exit:
  assumes "run_body sys hk val a pl s = Exit s'"
  shows "hook pl \<noteq> None \<and> dispatched s' = dispatched s \<and> environ s' = environ s"
  using assms
  by (auto simp: run_body_def Let_def split: option.splits if_splits sum.splits)

lemma run_cells_trace:
  assumes "run_cells sys hk val cells s = r" "r = Next s' \<or> r = Exit s'"
  shows "\<exists>ds n. dispatched s' = dispatched s @ ds
            \<and> map d_plugin ds = take n (eligible cells)
            \<and> (r = Next s' \<longrightarrow> map d_plugin ds = eligible cells)
            \<and> chained (env_after sys hk val) (environ s) ds (environ s')
            \<and> (\<forall>d\<in>set ds. status_ok sys hk val d)"
  using assms
proof (induction cells arbitrary: s)
  case Nil
  then show ?case by (auto simp: eligible_def)
next
  case (Cons c cells)
  obtain a pl where c: "c = (a, pl)" by (cases c)
  show ?case
  proof (cases "run_body sys hk val a pl s")
    case (Next s1)
    then have rest: "run_cells sys hk val cells s1 = r"
      using Cons.prems(1) c by simp
    obtain ds n where ds: "dispatched s' = dispatched s1 @ ds"
      "map d_plugin ds = take n (eligible cells)"
      "r = Next s' \<longrightarrow> map d_plugin ds = eligible cells"
      "chained (env_after sys hk val) (environ s1) ds (environ s')"
      "\<forall>d\<in>set ds. status_ok sys hk val d"
      using Cons.IH [OF rest Cons.prems(2)] by blast
    from run_body_Next [OF Next] show ?thesis
    proof (elim disjE conjE exE)
      assume "hook pl = None" "s1 = s"
      then show ?thesis
        using ds c by (auto simp: eligible_def intro!: exI [of _ ds] exI [of _ n])
    next
      fix d
      assume d: "hook pl = Some (d_hook d)" "d_plugin d = a" "d_env d = environ s"
        "dispatched s1 = dispatched s @ [d]" "env_after sys hk val d = Some (environ s1)"
        "status_ok sys hk val d"
      have "eligible (c # cells) = a # eligible cells"
        using d(1) c by (simp add: eligible_def)
      then show ?thesis
        using ds d by (auto intro!: exI [of _ "d # ds"] exI [of _ "Suc n"])
    qed
  next
    case (Exit s1)
    then have "r = Exit s1"
      using Cons.prems(1) c by simp
    then have "s' = s1"
      using Cons.prems(2) by auto
    then show ?thesis
      using run_body_Exit [OF Exit] \<open>r = Exit s1\<close>
      by (auto intro!: exI [of _ "[]"] exI [of _ 0])
  next
    case (Crash err)
    then show ?thesis
      using Cons.prems c by auto
  qed
qed

subsection \<open>The states of the examples\<close>

lemma two_plugins_list: "plugin_list (heap two_plugins) (plugins two_plugins) two_cells"
  by (simp add: two_plugins_def two_cells_def boot_def)

lemma two_plugins_not_in: "\<not> rc_in_plugin two_plugins"
  by (simp add: two_plugins_def boot_def)

lemma quiet_run:
  "run_cells quiet_os 0 [] two_cells two_plugins =
     Next (two_plugins\<lparr>environ := [''X'' \<mapsto> ''1''],
        dispatched := [\<lparr>d_plugin = 0, d_hook = 10, d_env = Map.empty, d_status = 7\<rparr>,
                       \<lparr>d_plugin = 1, d_hook = 20, d_env = [''X'' \<mapsto> ''1''], d_status = 0\<rparr>]\<rparr>)"
  by (simp add: two_cells_def two_plugins_def boot_def quiet_os_def run_body_def Let_def
      decode.simps strsep_def cstr_def setenv_def unsetenv_def valid_name_def
      rc_waitpid_def WIFEXITED_def WEXITSTATUS_def)

subsection \<open>Where a run ends\<close>

lemma run_body_Exit_cause:
  assumes "run_body sys hk val a pl s = Exit s'"
  shows "\<not> pipe_ok sys a \<or> fork sys a = None"
  using assms
  by (auto simp: run_body_def Let_def split: option.splits if_splits sum.splits)

lemma run_cells_Exit_cause:
  "run_cells sys hk val cells s = Exit s' \<Longrightarrow>
     \<exists>c\<in>set cells. \<not> pipe_ok sys (fst c) \<or> fork sys (fst c) = None"
proof (induction cells arbitrary: s)
  case Nil
  then show ?case by simp
next
  case (Cons c cells)
  obtain a pl where c: "c = (a, pl)" by (cases c)
  show ?case
  proof (cases "run_body sys hk val a pl s")
    case (Next s1)
    then show ?thesis
      using Cons c by auto
  next
    case (Exit s1)
    then show ?thesis
      using run_body_Exit_cause [OF Exit] c by auto
  next
    case (Crash err)
    then show ?thesis
      using Cons.prems c by simp
  qed
qed

lemma run_reaches:
  assumes "plugin_list (heap s) (plugins s) (pre @ (a, pl) # post)" and "\<not> rc_in_plugin s"
    and "run_cells sys hk val pre s = Next s1"
  shows "rc_plugin_run sys hk val s =
           Some (finish (case run_body sys hk val a pl s1 of
                           Next s2 \<Rightarrow> run_cells sys hk val post s2
                         | Exit s2 \<Rightarrow> Exit s2
                         | Crash err \<Rightarrow> Crash err))"
  using rc_plugin_run_cells [OF assms(1,2), of sys hk val] assms(3)
  by (simp add: run_cells_append)

subsection \<open>Order of dispatch and the environment\<close>

text \<open>
  Claim C5.  On a well-formed list a run returns; if the host did not crash, the
  plugins that were dispatched are, in the order of the registry, the first
  ones of those that have a hook (all of them when no \<open>pipe\<close> and no \<open>fork\<close>
  fails), and each child inherited the environment that the decoding of the
  child before it had left: the first one the environment at the call, the run
  ending with the environment the last one left.
\<close>

theorem run_order_and_environment:
  assumes "plugin_list (heap s) (plugins s) cells" and "\<not> rc_in_plugin s"
  shows "\<exists>r. rc_plugin_run sys hk val s = Some r \<and>
           (\<forall>s'. r = Inr s' \<longrightarrow>
              (\<exists>ds n. dispatched s' = dispatched s @ ds
                 \<and> map d_plugin ds = take n (eligible cells)
                 \<and> ((\<forall>c\<in>set cells. pipe_ok sys (fst c) \<and> fork sys (fst c) \<noteq> None) \<longrightarrow>
                        map d_plugin ds = eligible cells)
                 \<and> chained (env_after sys hk val) (environ s) ds (environ s')))"
proof -
  let ?r = "run_cells sys hk val cells s"
  have run: "rc_plugin_run sys hk val s = Some (finish ?r)"
    using assms by (rule rc_plugin_run_cells)
  have "\<exists>ds n. dispatched s' = dispatched s @ ds
           \<and> map d_plugin ds = take n (eligible cells)
           \<and> ((\<forall>c\<in>set cells. pipe_ok sys (fst c) \<and> fork sys (fst c) \<noteq> None) \<longrightarrow>
                  map d_plugin ds = eligible cells)
           \<and> chained (env_after sys hk val) (environ s) ds (environ s')"
    if "finish ?r = Inr s'" for s'
  proof -
    have ends: "?r = Next s' \<or> ?r = Exit s'"
      using that by (cases ?r) auto
    have "?r = Next s'"
      if "\<forall>c\<in>set cells. pipe_ok sys (fst c) \<and> fork sys (fst c) \<noteq> None"
      using ends that run_cells_Exit_cause [of sys hk val cells s s'] by fastforce
    with run_cells_trace [OF refl ends] show ?thesis
      by blast
  qed
  then show ?thesis
    using run by blast
qed

text \<open>
  Two plugins, the first writing \<open>X=1\<close>: the second is forked with \<open>X\<close> set to
  \<open>1\<close>.
\<close>

theorem run_order_and_environment_witness:
  "\<exists>s'. rc_plugin_run quiet_os 0 [] two_plugins = Some (Inr s')
      \<and> (\<exists>ds n. dispatched s' = dispatched two_plugins @ ds
            \<and> map d_plugin ds = take n (eligible two_cells)
            \<and> ((\<forall>c\<in>set two_cells. pipe_ok quiet_os (fst c) \<and> fork quiet_os (fst c) \<noteq> None) \<longrightarrow>
                   map d_plugin ds = eligible two_cells)
            \<and> chained (env_after quiet_os 0 []) (environ two_plugins) ds (environ s'))
      \<and> map d_plugin (dispatched s') = [0, 1]
      \<and> map (\<lambda>d. d_env d ''X'') (dispatched s') = [None, Some ''1'']"
proof -
  let ?s' = "two_plugins\<lparr>environ := [''X'' \<mapsto> ''1''],
        dispatched := [\<lparr>d_plugin = 0, d_hook = 10, d_env = Map.empty, d_status = 7\<rparr>,
                       \<lparr>d_plugin = 1, d_hook = 20, d_env = [''X'' \<mapsto> ''1''], d_status = 0\<rparr>]\<rparr>"
  have run: "rc_plugin_run quiet_os 0 [] two_plugins = Some (Inr ?s')"
    using rc_plugin_run_cells [OF two_plugins_list two_plugins_not_in, of quiet_os 0 "[]"]
    by (simp add: quiet_run)
  obtain r where r: "rc_plugin_run quiet_os 0 [] two_plugins = Some r"
    and all: "\<forall>s'. r = Inr s' \<longrightarrow>
              (\<exists>ds n. dispatched s' = dispatched two_plugins @ ds
                 \<and> map d_plugin ds = take n (eligible two_cells)
                 \<and> ((\<forall>c\<in>set two_cells. pipe_ok quiet_os (fst c) \<and> fork quiet_os (fst c) \<noteq> None) \<longrightarrow>
                        map d_plugin ds = eligible two_cells)
                 \<and> chained (env_after quiet_os 0 []) (environ two_plugins) ds (environ s'))"
    using run_order_and_environment [OF two_plugins_list two_plugins_not_in, of quiet_os 0 "[]"]
    by blast
  have "r = Inr ?s'"
    using r run by simp
  then have chain: "\<exists>ds n. dispatched ?s' = dispatched two_plugins @ ds
                 \<and> map d_plugin ds = take n (eligible two_cells)
                 \<and> ((\<forall>c\<in>set two_cells. pipe_ok quiet_os (fst c) \<and> fork quiet_os (fst c) \<noteq> None) \<longrightarrow>
                        map d_plugin ds = eligible two_cells)
                 \<and> chained (env_after quiet_os 0 []) (environ two_plugins) ds (environ ?s')"
    by (rule all [rule_format])
  have order: "map d_plugin (dispatched ?s') = [0, 1]"
    and envs: "map (\<lambda>d. d_env d ''X'') (dispatched ?s') = [None, Some ''1'']"
    by simp_all
  show ?thesis
    by (rule exI [of _ ?s']) (intro conjI run chain order envs)
qed

subsection \<open>The exit status of a plugin\<close>

text \<open>
  Claim C6.  For every plugin dispatched in a run whose child ends by the hook
  returning \<open>r\<close> (the child then calls \<open>exit (r)\<close>), the status that
  \<open>rc_waitpid\<close> returns to the dispatcher is \<open>r mod 256\<close>.
\<close>

theorem captured_exit_status:
  assumes "plugin_list (heap s) (plugins s) cells" and "\<not> rc_in_plugin s"
    and "rc_plugin_run sys hk val s = Some (Inr s')"
    and "d \<in> set (drop (length (dispatched s)) (dispatched s'))"
    and "fork sys (d_plugin d) = Some pid" and "0 < pid"
    and "ending (child sys (d_hook d) hk val (d_env d)) = Returned r"
  shows "d_status d = r mod 256"
proof -
  let ?r = "run_cells sys hk val cells s"
  have "finish ?r = Inr s'"
    using rc_plugin_run_cells [OF assms(1,2), of sys hk val] assms(3) by simp
  then have "?r = Next s' \<or> ?r = Exit s'"
    by (cases ?r) auto
  from run_cells_trace [OF refl this] obtain ds where
    "dispatched s' = dispatched s @ ds" "\<forall>d\<in>set ds. status_ok sys hk val d"
    by blast
  then have "status_ok sys hk val d"
    using assms(4) by simp
  then have "d_status d = rc_waitpid [(pid, wstatus (Returned r))] pid"
    using assms(5,7) by (simp add: status_ok_def)
  then show ?thesis
    using rc_waitpid_Returned [OF assms(6)] by simp
qed

text \<open>
  The hook of \<open>a.so\<close> returns 7, and the status captured for it is 7.
\<close>

theorem captured_exit_status_witness:
  "\<exists>s' d. rc_plugin_run quiet_os 0 [] two_plugins = Some (Inr s')
      \<and> d \<in> set (drop (length (dispatched two_plugins)) (dispatched s'))
      \<and> fork quiet_os (d_plugin d) = Some 100
      \<and> ending (child quiet_os (d_hook d) 0 [] (d_env d)) = Returned 7
      \<and> d_status d = 7 mod 256 \<and> d_status d = 7"
proof -
  let ?d = "\<lparr>d_plugin = 0, d_hook = 10, d_env = Map.empty, d_status = 7\<rparr>"
  let ?s' = "two_plugins\<lparr>environ := [''X'' \<mapsto> ''1''],
        dispatched := [?d,
                       \<lparr>d_plugin = 1, d_hook = 20, d_env = [''X'' \<mapsto> ''1''], d_status = 0\<rparr>]\<rparr>"
  have run: "rc_plugin_run quiet_os 0 [] two_plugins = Some (Inr ?s')"
    using rc_plugin_run_cells [OF two_plugins_list two_plugins_not_in, of quiet_os 0 "[]"]
    by (simp add: quiet_run)
  have d: "?d \<in> set (drop (length (dispatched two_plugins)) (dispatched ?s'))"
    by (simp add: two_plugins_def boot_def)
  have pid: "fork quiet_os (d_plugin ?d) = Some 100" "(0::int) < 100"
    by (simp_all add: quiet_os_def)
  have ret: "ending (child quiet_os (d_hook ?d) 0 [] (d_env ?d)) = Returned 7"
    by (simp add: quiet_os_def)
  have "d_status ?d = 7 mod 256"
    by (rule captured_exit_status [OF two_plugins_list two_plugins_not_in run d pid ret])
  then show ?thesis
    using run d pid(1) ret by (intro exI [of _ ?s'] exI [of _ ?d]) simp
qed

subsection \<open>Failure of fork\<close>

text \<open>
  Claim C8.  When the plugins before the one at \<open>a\<close> were gone through
  without a failure and \<open>fork\<close> fails for \<open>a\<close>, the run logs the error and ends:
  the state is the one reached before \<open>a\<close> but for the log (and the signal mask,
  left full), and the plugins dispatched in the run are those before \<open>a\<close>.
  Neither \<open>a\<close> nor a plugin after it is dispatched.
\<close>

theorem fork_failure_aborts:
  assumes "plugin_list (heap s) (plugins s) (pre @ (a, pl) # post)" and "\<not> rc_in_plugin s"
    and "run_cells sys hk val pre s = Next s1"
    and "hook pl = Some f" and "pipe_ok sys a" and "fork sys a = None"
  shows "\<exists>s'. rc_plugin_run sys hk val s = Some (Inr s')
           \<and> elog s' = elog s1 @ map (\<lambda>i. Log_fcntl) (filter (\<lambda>i. \<not> fcntl_ok sys a i) [0, 1])
                          @ [Log_fork]
           \<and> dispatched s' = dispatched s1
           \<and> map d_plugin (drop (length (dispatched s)) (dispatched s')) = eligible pre"
proof -
  obtain s' where body: "run_body sys hk val a pl s1 = Exit s'"
    and log: "elog s' = elog s1 @ map (\<lambda>i. Log_fcntl) (filter (\<lambda>i. \<not> fcntl_ok sys a i) [0, 1])
                          @ [Log_fork]"
    and same: "dispatched s' = dispatched s1"
    using assms(4-6) by (simp add: run_body_def Let_def)
  have run: "rc_plugin_run sys hk val s = Some (Inr s')"
    using run_reaches [OF assms(1-3)] body by simp
  obtain ds where "dispatched s1 = dispatched s @ ds" "map d_plugin ds = eligible pre"
    using run_cells_trace [OF assms(3), of s1] by auto
  then have "map d_plugin (drop (length (dispatched s)) (dispatched s')) = eligible pre"
    using same by simp
  then show ?thesis
    using run log same by blast
qed

theorem fork_failure_aborts_witness:
  "\<exists>s'. rc_plugin_run (quiet_os\<lparr>fork := (\<lambda>a. if a = 0 then None else Some 101)\<rparr>) 0 [] two_plugins
           = Some (Inr s')
      \<and> elog s' = elog two_plugins @ map (\<lambda>i. Log_fcntl)
            (filter (\<lambda>i. \<not> fcntl_ok (quiet_os\<lparr>fork := (\<lambda>a. if a = 0 then None else Some 101)\<rparr>) 0 i)
               [0, 1]) @ [Log_fork]
      \<and> dispatched s' = dispatched two_plugins
      \<and> map d_plugin (drop (length (dispatched two_plugins)) (dispatched s')) = eligible []"
proof (rule fork_failure_aborts)
  show "plugin_list (heap two_plugins) (plugins two_plugins)
          ([] @ (0, \<lparr>name = ''a.so'', handle = 1, hook = Some 10, next = Some 1\<rparr>)
             # [(1, \<lparr>name = ''b.so'', handle = 2, hook = Some 20, next = None\<rparr>)])"
    using two_plugins_list by (simp add: two_cells_def)
  show "\<not> rc_in_plugin two_plugins"
    by (rule two_plugins_not_in)
  show "run_cells (quiet_os\<lparr>fork := (\<lambda>a. if a = 0 then None else Some 101)\<rparr>) 0 [] [] two_plugins
          = Next two_plugins"
    by simp
  show "hook \<lparr>name = ''a.so'', handle = 1, hook = Some 10, next = Some 1\<rparr> = Some 10"
    by simp
  show "pipe_ok (quiet_os\<lparr>fork := (\<lambda>a. if a = 0 then None else Some 101)\<rparr>) 0"
    by (simp add: quiet_os_def)
  show "fork (quiet_os\<lparr>fork := (\<lambda>a. if a = 0 then None else Some 101)\<rparr>) 0 = None"
    by simp
qed

subsection \<open>Failure of pipe and of fcntl\<close>

text \<open>
  Claim C2, as it is stated, fails for \<open>pipe\<close>.  With two plugins and \<open>pipe\<close>
  failing for the first, the run logs the error and returns: nothing is
  dispatched, although the second plugin has a hook and \<open>pipe\<close> and \<open>fork\<close>
  would succeed for it.
\<close>

theorem pipe_failure_stops_run_counterexample:
  "rc_plugin_run (quiet_os\<lparr>pipe_ok := (\<lambda>a. a \<noteq> 0)\<rparr>) 0 [] two_plugins
     = Some (Inr (two_plugins\<lparr>elog := [Log_pipe]\<rparr>))
   \<and> dispatched two_plugins = []
   \<and> map_of (heap two_plugins) 1
        = Some \<lparr>name = ''b.so'', handle = 2, hook = Some 20, next = None\<rparr>
   \<and> pipe_ok (quiet_os\<lparr>pipe_ok := (\<lambda>a. a \<noteq> 0)\<rparr>) 1
   \<and> fork (quiet_os\<lparr>pipe_ok := (\<lambda>a. a \<noteq> 0)\<rparr>) 1 = Some 101"
  using rc_plugin_run_cells [OF two_plugins_list two_plugins_not_in,
      of "quiet_os\<lparr>pipe_ok := (\<lambda>a. a \<noteq> 0)\<rparr>" 0 "[]"]
  by (simp add: two_cells_def two_plugins_def boot_def quiet_os_def run_body_def)

text \<open>
  Claim C2, as the code has it.  When \<open>pipe\<close> fails for the plugin at \<open>a\<close>, the
  run logs the error and returns in the state reached before \<open>a\<close>: neither \<open>a\<close>
  nor a plugin after it is dispatched.  When \<open>pipe\<close> succeeds, each failing
  \<open>fcntl\<close> is logged and nothing else changes: if \<open>fork\<close> succeeds and the
  child's output decodes, \<open>a\<close> is dispatched and the run goes on with the
  plugins after it.
\<close>

theorem pipe_failure_returns:
  assumes "plugin_list (heap s) (plugins s) (pre @ (a, pl) # post)" and "\<not> rc_in_plugin s"
    and "run_cells sys hk val pre s = Next s1"
    and "hook pl = Some f"
  shows "(\<not> pipe_ok sys a \<longrightarrow>
            rc_plugin_run sys hk val s = Some (Inr (s1\<lparr>elog := elog s1 @ [Log_pipe]\<rparr>)))
       \<and> (\<forall>pid e buffer.
            pipe_ok sys a \<and> fork sys a = Some pid
            \<and> read_loop (replicate (BUFSIZ sys) NUL)
                 (chunks (child sys f hk val (environ s1))) (environ s1) = Inr (e, buffer) \<longrightarrow>
            (\<exists>s2 d. run_body sys hk val a pl s1 = Next s2
               \<and> elog s2 = elog s1
                    @ map (\<lambda>i. Log_fcntl) (filter (\<lambda>i. \<not> fcntl_ok sys a i) [0, 1])
               \<and> dispatched s2 = dispatched s1 @ [d] \<and> d_plugin d = a
               \<and> environ s2 = e
               \<and> rc_plugin_run sys hk val s
                    = Some (finish (run_cells sys hk val post s2))))"
proof (intro conjI impI allI)
  assume "\<not> pipe_ok sys a"
  then have "run_body sys hk val a pl s1 = Exit (s1\<lparr>elog := elog s1 @ [Log_pipe]\<rparr>)"
    using assms(4) by (simp add: run_body_def)
  then show "rc_plugin_run sys hk val s = Some (Inr (s1\<lparr>elog := elog s1 @ [Log_pipe]\<rparr>))"
    using run_reaches [OF assms(1-3)] by simp
next
  fix pid e buffer
  assume ok: "pipe_ok sys a \<and> fork sys a = Some pid
            \<and> read_loop (replicate (BUFSIZ sys) NUL)
                 (chunks (child sys f hk val (environ s1))) (environ s1) = Inr (e, buffer)"
  define d where "d = \<lparr>d_plugin = a, d_hook = f, d_env = environ s1,
    d_status = rc_waitpid [(pid, wstatus (ending (child sys f hk val (environ s1))))] pid\<rparr>"
  define s2 where "s2 = s1\<lparr>elog := elog s1
        @ map (\<lambda>i. Log_fcntl) (filter (\<lambda>i. \<not> fcntl_ok sys a i) [0, 1]),
      environ := e, dispatched := dispatched s1 @ [d]\<rparr>"
  have body: "run_body sys hk val a pl s1 = Next s2"
    using assms(4) ok by (simp add: run_body_def Let_def s2_def d_def)
  then have "rc_plugin_run sys hk val s = Some (finish (run_cells sys hk val post s2))"
    using run_reaches [OF assms(1-3)] by simp
  then show "\<exists>s2 d. run_body sys hk val a pl s1 = Next s2
               \<and> elog s2 = elog s1
                    @ map (\<lambda>i. Log_fcntl) (filter (\<lambda>i. \<not> fcntl_ok sys a i) [0, 1])
               \<and> dispatched s2 = dispatched s1 @ [d] \<and> d_plugin d = a
               \<and> environ s2 = e
               \<and> rc_plugin_run sys hk val s
                    = Some (finish (run_cells sys hk val post s2))"
    using body by (intro exI [of _ s2] exI [of _ d]) (simp add: s2_def d_def)
qed

theorem pipe_failure_returns_witness:
  "rc_plugin_run (quiet_os\<lparr>pipe_ok := (\<lambda>a. a \<noteq> 0)\<rparr>) 0 [] two_plugins
     = Some (Inr (two_plugins\<lparr>elog := elog two_plugins @ [Log_pipe]\<rparr>))
   \<and> (\<exists>s2 d. run_body (quiet_os\<lparr>fcntl_ok := (\<lambda>a i. i \<noteq> 1)\<rparr>) 0 [] 0
                  \<lparr>name = ''a.so'', handle = 1, hook = Some 10, next = Some 1\<rparr> two_plugins
                = Next s2
          \<and> elog s2 = elog two_plugins
               @ map (\<lambda>i. Log_fcntl)
                   (filter (\<lambda>i. \<not> fcntl_ok (quiet_os\<lparr>fcntl_ok := (\<lambda>a i. i \<noteq> 1)\<rparr>) 0 i) [0, 1])
          \<and> dispatched s2 = dispatched two_plugins @ [d] \<and> d_plugin d = 0
          \<and> environ s2 = [''X'' \<mapsto> ''1'']
          \<and> rc_plugin_run (quiet_os\<lparr>fcntl_ok := (\<lambda>a i. i \<noteq> 1)\<rparr>) 0 [] two_plugins
               = Some (finish (run_cells (quiet_os\<lparr>fcntl_ok := (\<lambda>a i. i \<noteq> 1)\<rparr>) 0 []
                   [(1, \<lparr>name = ''b.so'', handle = 2, hook = Some 20, next = None\<rparr>)] s2)))"
proof -
  let ?a = "\<lparr>name = ''a.so'', handle = 1, hook = Some 10, next = Some 1\<rparr>"
  let ?b = "\<lparr>name = ''b.so'', handle = 2, hook = Some 20, next = None\<rparr>"
  have cells: "plugin_list (heap two_plugins) (plugins two_plugins) ([] @ (0, ?a) # [(1, ?b)])"
    using two_plugins_list by (simp add: two_cells_def)
  have reach: "run_cells sys 0 [] [] two_plugins = Next two_plugins" for sys
    by simp
  have hook: "hook ?a = Some 10"
    by simp
  have nopipe: "\<not> pipe_ok (quiet_os\<lparr>pipe_ok := (\<lambda>a. a \<noteq> 0)\<rparr>) 0"
    by simp
  have ok: "pipe_ok (quiet_os\<lparr>fcntl_ok := (\<lambda>a i. i \<noteq> 1)\<rparr>) 0
      \<and> fork (quiet_os\<lparr>fcntl_ok := (\<lambda>a i. i \<noteq> 1)\<rparr>) 0 = Some 100
      \<and> read_loop (replicate (BUFSIZ (quiet_os\<lparr>fcntl_ok := (\<lambda>a i. i \<noteq> 1)\<rparr>)) NUL)
           (chunks (child (quiet_os\<lparr>fcntl_ok := (\<lambda>a i. i \<noteq> 1)\<rparr>) 10 0 [] (environ two_plugins)))
           (environ two_plugins)
         = Inr ([''X'' \<mapsto> ''1''],
                CHR ''X'' # NUL # CHR ''1'' # NUL # replicate 8188 NUL)"
    by (simp add: quiet_os_def two_plugins_def boot_def decode.simps strsep_def cstr_def
        setenv_def unsetenv_def valid_name_def)
  note thm1 = pipe_failure_returns [OF cells two_plugins_not_in reach hook,
      of "quiet_os\<lparr>pipe_ok := (\<lambda>a. a \<noteq> 0)\<rparr>", THEN conjunct1, rule_format, OF nopipe]
  note thm2 = pipe_failure_returns [OF cells two_plugins_not_in reach hook,
      of "quiet_os\<lparr>fcntl_ok := (\<lambda>a i. i \<noteq> 1)\<rparr>", THEN conjunct2, rule_format, OF ok]
  show ?thesis
    by (intro conjI thm1 thm2)
qed

section \<open>Loading the plugins\<close>

subsection \<open>Appending a cell to the list\<close>

lemma plugin_list_addrs:
  "plugin_list h p cells \<Longrightarrow> fst ` set cells \<subseteq> fst ` set h"
proof (induction cells arbitrary: p)
  case Nil
  then show ?case by simp
next
  case (Cons c cells)
  obtain a pl where c: "c = (a, pl)" by (cases c)
  have "map_of h a = Some pl" "plugin_list h (next pl) cells"
    using Cons.prems c by simp_all
  then show ?case
    using Cons.IH [of "next pl"] c by (auto dest: map_of_SomeD intro: rev_image_eqI)
qed

lemma update_addrs: "fst ` set (AList.update k v al) = insert k (fst ` set al)"
  by (induction al) auto

lemma plugin_list_last:
  "plugin_list h p (xs @ [(a, pl)]) \<Longrightarrow> map_of h a = Some pl \<and> next pl = None"
  by (induction xs arbitrary: p) auto

lemma plugin_list_snoc:
  assumes "plugin_list h p (xs @ [(a, pl)])"
    and "distinct (map fst (xs @ [(a, pl)]))"
    and "n \<notin> fst ` set (xs @ [(a, pl)])"
    and "map_of h' n = Some new" "next new = None"
    and "map_of h' a = Some (pl\<lparr>next := Some n\<rparr>)"
    and "\<And>x. x \<noteq> a \<Longrightarrow> x \<noteq> n \<Longrightarrow> map_of h' x = map_of h x"
  shows "plugin_list h' p (xs @ [(a, pl\<lparr>next := Some n\<rparr>), (n, new)])"
  using assms(1-3)
proof (induction xs arbitrary: p)
  case Nil
  then show ?case
    using assms(4-6) by simp
next
  case (Cons c xs)
  obtain b pb where c: "c = (b, pb)" by (cases c)
  have "b \<noteq> a" "b \<noteq> n"
    using Cons.prems(2,3) c by auto
  then have "map_of h' b = map_of h b"
    by (rule assms(7))
  then show ?case
    using Cons c by auto
qed

lemma load_loop_appends:
  assumes "plugin_list (heap s) (plugins s) cells"
    and "plugin = (if cells = [] then None else Some (fst (last cells)))"
    and "heap_ok s"
    and "distinct (map fst cells)"
  shows "\<exists>s' cells'. load_loop pd ds plugin s = Inr s'
           \<and> plugin_list (heap s') (plugins s') cells'
           \<and> map record_of cells'
               = map record_of cells @ map (\<lambda>(d, h, f). (d, h, Some f)) (loaded pd ds)
           \<and> dl_open s' = rev (map (\<lambda>(d, h, f). h) (loaded pd ds)) @ dl_open s
           \<and> environ s' = environ s \<and> rc_in_plugin s' = rc_in_plugin s
           \<and> dispatched s' = dispatched s"
  using assms
proof (induction ds arbitrary: s cells plugin)
  case Nil
  then show ?case by auto
next
  case (Cons d ds)
  show ?case
  proof (cases "take 1 d = ''.''")
    case True
    then have "(case d of [] \<Rightarrow> False | c # _ \<Rightarrow> c = CHR ''.'')"
      by (cases d) auto
    then show ?thesis
      using Cons.IH [OF Cons.prems] True by simp
  next
    case False
    then have vis: "\<not> (case d of [] \<Rightarrow> False | c # _ \<Rightarrow> c = CHR ''.'')"
      by (cases d) auto
    show ?thesis
    proof (cases "dlopen pd d")
      case None
      let ?s = "s\<lparr>elog := elog s @ [Log_dlopen]\<rparr>"
      have "plugin_list (heap ?s) (plugins ?s) cells" "heap_ok ?s"
        using Cons.prems by (simp_all add: heap_ok_def)
      from Cons.IH [OF this(1) Cons.prems(2) this(2) Cons.prems(4)]
      show ?thesis
        using None False vis by simp
    next
      case (Some h)
      show ?thesis
      proof (cases "dlfunc pd h")
        case None
        let ?s = "s\<lparr>dl_open := h # dl_open s, elog := elog s @ [Log_no_symbol d],
                    dl_open := remove1 h (h # dl_open s)\<rparr>"
        have "plugin_list (heap ?s) (plugins ?s) cells" "heap_ok ?s"
          using Cons.prems by (simp_all add: heap_ok_def)
        from Cons.IH [OF this(1) Cons.prems(2) this(2) Cons.prems(4)]
        show ?thesis
          using None Some False vis by simp
      next
        case fptr: (Some f)
        define n where "n = brk s"
        define new where "new = \<lparr>name = d, handle = h, hook = Some f, next = None\<rparr>"
        have fresh: "n \<notin> fst ` set (heap s)"
          using Cons.prems(3) by (auto simp: heap_ok_def n_def)
        then have fresh_cells: "n \<notin> fst ` set cells"
          using plugin_list_addrs [OF Cons.prems(1)] by auto
        show ?thesis
        proof (cases "cells = []")
          case True
          let ?s = "s\<lparr>dl_open := h # dl_open s, brk := Suc n, plugins := Some n,
                      heap := (n, new) # heap s\<rparr>"
          have step: "load_loop pd (d # ds) plugin s = load_loop pd ds (Some n) ?s"
            using True Cons.prems(2) Some fptr vis
            by (simp add: xmalloc_def n_def new_def)
          have pl': "plugin_list (heap ?s) (plugins ?s) [(n, new)]"
            by (simp add: new_def)
          have ok': "heap_ok ?s"
            using Cons.prems(3) by (auto simp: heap_ok_def n_def)
          have cur: "Some n = (if [(n, new)] = [] then None else Some (fst (last [(n, new)])))"
            by simp
          have dist': "distinct (map fst [(n, new)])"
            by simp
          obtain s' cells' where r:
            "load_loop pd ds (Some n) ?s = Inr s'"
            "plugin_list (heap s') (plugins s') cells'"
            "map record_of cells'
               = map record_of [(n, new)] @ map (\<lambda>(d, h, f). (d, h, Some f)) (loaded pd ds)"
            "dl_open s' = rev (map (\<lambda>(d, h, f). h) (loaded pd ds)) @ dl_open ?s"
            "environ s' = environ ?s" "rc_in_plugin s' = rc_in_plugin ?s"
            "dispatched s' = dispatched ?s"
            using Cons.IH [OF pl' cur ok' dist'] by blast
          have ld: "loaded pd (d # ds) = (d, h, f) # loaded pd ds"
            using Some fptr False by simp
          have rn: "record_of (n, new) = (d, h, Some f)"
            by (simp add: record_of_def new_def)
          show ?thesis
            unfolding step ld using r True rn
            by (intro exI [of _ s'] exI [of _ cells']) simp
        next
          case nonempty: False
          then obtain xs a pl where cells: "cells = xs @ [(a, pl)]"
            by (metis surj_pair rev_exhaust)
          have last: "map_of (heap s) a = Some pl" "next pl = None"
            using plugin_list_last Cons.prems(1) cells by blast+
          have "a \<noteq> n"
            using fresh_cells cells by auto
          let ?h = "AList.update n new (AList.update a (pl\<lparr>next := Some n\<rparr>)
                      ((n, \<lparr>name = [], handle = 0, hook = None, next = None\<rparr>) # heap s))"
          let ?s = "s\<lparr>dl_open := h # dl_open s, brk := Suc n, heap := ?h\<rparr>"
          let ?cells = "xs @ [(a, pl\<lparr>next := Some n\<rparr>), (n, new)]"
          have step: "load_loop pd (d # ds) plugin s = load_loop pd ds (Some n) ?s"
            using nonempty cells Cons.prems(2) Some fptr vis last \<open>a \<noteq> n\<close>
            by (simp add: xmalloc_def deref_def n_def new_def)
          have "plugin_list ?h (plugins s) ?cells"
          proof (rule plugin_list_snoc)
            show "plugin_list (heap s) (plugins s) (xs @ [(a, pl)])"
              using Cons.prems(1) cells by simp
            show "distinct (map fst (xs @ [(a, pl)]))"
              using Cons.prems(4) cells by simp
            show "n \<notin> fst ` set (xs @ [(a, pl)])"
              using fresh_cells cells by simp
            show "map_of ?h n = Some new"
              by (simp add: update_conv')
            show "next new = None"
              by (simp add: new_def)
            show "map_of ?h a = Some (pl\<lparr>next := Some n\<rparr>)"
              using \<open>a \<noteq> n\<close> by (simp add: update_conv')
            show "map_of ?h x = map_of (heap s) x" if "x \<noteq> a" "x \<noteq> n" for x
              using that by (simp add: update_conv')
          qed
          then have pl': "plugin_list (heap ?s) (plugins ?s) ?cells"
            by simp
          have "a \<in> fst ` set (heap s)"
            using map_of_SomeD [OF last(1)] by force
          then have "fst ` set ?h = insert n (fst ` set (heap s))"
            by (auto simp: update_addrs)
          then have ok': "heap_ok ?s"
            using Cons.prems(3) by (auto simp: heap_ok_def n_def)
          have cur: "Some n = (if ?cells = [] then None else Some (fst (last ?cells)))"
            by simp
          have dist': "distinct (map fst ?cells)"
            using Cons.prems(4) fresh_cells cells by auto
          obtain s' cells' where r:
            "load_loop pd ds (Some n) ?s = Inr s'"
            "plugin_list (heap s') (plugins s') cells'"
            "map record_of cells'
               = map record_of ?cells @ map (\<lambda>(d, h, f). (d, h, Some f)) (loaded pd ds)"
            "dl_open s' = rev (map (\<lambda>(d, h, f). h) (loaded pd ds)) @ dl_open ?s"
            "environ s' = environ ?s" "rc_in_plugin s' = rc_in_plugin ?s"
            "dispatched s' = dispatched ?s"
            using Cons.IH [OF pl' cur ok' dist'] by blast
          have ld: "loaded pd (d # ds) = (d, h, f) # loaded pd ds"
            using Some fptr False by simp
          have rn: "record_of (n, new) = (d, h, Some f)"
            "record_of (a, pl\<lparr>next := Some n\<rparr>) = record_of (a, pl)"
            by (simp_all add: record_of_def new_def)
          show ?thesis
            unfolding step ld using r cells rn
            by (intro exI [of _ s'] exI [of _ cells']) simp
        qed
      qed
    qed
  qed
qed


lemma loaded_sound:
  "(d, h, f) \<in> set (loaded pd ds) \<Longrightarrow>
     d \<in> set ds \<and> take 1 d \<noteq> ''.'' \<and> dlopen pd d = Some h \<and> dlfunc pd h = Some f"
  by (induction ds) (auto split: if_splits option.splits)

subsection \<open>Entries that are skipped\<close>

text \<open>
  A load that starts from an empty registry, as the first load does.  When the
  directory can be read, \<open>rc_plugin_load\<close> returns with a well-formed list that
  holds, in the order of the scan, exactly the entries that are not hidden,
  open and export the hook symbol, whatever comes before or after them in the
  directory; the handles left open are those of the cells.  So an entry that
  opens but does not export the symbol gets no cell, its handle is closed
  again, and the other entries are loaded all the same.
\<close>

lemma first_load_registry:
  assumes "\<not> rc_in_plugin s" and "plugins s = None" and "heap_ok s"
    and "opendir pd = Some ds"
  shows "\<exists>s' cells. rc_plugin_load pd s = Inr s'
           \<and> plugin_list (heap s') (plugins s') cells
           \<and> map record_of cells = map (\<lambda>(d, h, f). (d, h, Some f)) (loaded pd ds)
           \<and> dl_open s' = rev (map (\<lambda>(d, h, f). h) (loaded pd ds)) @ dl_open s
           \<and> (\<forall>d\<in>set ds. \<forall>h. dlopen pd d = Some h \<and> dlfunc pd h = None \<longrightarrow>
                  d \<notin> set (map (\<lambda>c. name (snd c)) cells)
                  \<and> h \<notin> set (map (\<lambda>c. handle (snd c)) cells))"
proof -
  have unload: "rc_plugin_unload s = Inr (s\<lparr>plugins := None\<rparr>)"
    using assms(2) by (simp add: rc_plugin_unload_def unload_loop.simps)
  let ?s = "s\<lparr>plugins := None\<rparr>"
  have load: "rc_plugin_load pd s = load_loop pd ds None ?s"
    using assms(1,2,4) unload by (simp add: rc_plugin_load_def)
  have "plugin_list (heap ?s) (plugins ?s) []" "heap_ok ?s"
    using assms(3) by (simp_all add: heap_ok_def)
  from load_loop_appends [OF this(1) _ this(2), of None pd ds]
  obtain s' cells where r: "load_loop pd ds None ?s = Inr s'"
    "plugin_list (heap s') (plugins s') cells"
    "map record_of cells = map (\<lambda>(d, h, f). (d, h, Some f)) (loaded pd ds)"
    "dl_open s' = rev (map (\<lambda>(d, h, f). h) (loaded pd ds)) @ dl_open s"
    by auto
  have names: "map (\<lambda>c. name (snd c)) cells = map fst (loaded pd ds)"
    and handles: "map (\<lambda>c. handle (snd c)) cells = map (\<lambda>(d, h, f). h) (loaded pd ds)"
    using arg_cong [OF r(3), of "map fst"] arg_cong [OF r(3), of "map (\<lambda>x. fst (snd x))"]
    by (simp_all add: record_of_def comp_def case_prod_beta)
  have "d \<notin> set (map (\<lambda>c. name (snd c)) cells) \<and> h \<notin> set (map (\<lambda>c. handle (snd c)) cells)"
    if "dlopen pd d = Some h" "dlfunc pd h = None" for d h
    unfolding names handles using that loaded_sound [of _ _ _ pd ds] by fastforce
  then have skipped: "\<forall>d\<in>set ds. \<forall>h. dlopen pd d = Some h \<and> dlfunc pd h = None \<longrightarrow>
                  d \<notin> set (map (\<lambda>c. name (snd c)) cells)
                  \<and> h \<notin> set (map (\<lambda>c. handle (snd c)) cells)"
    by blast
  have "rc_plugin_load pd s = Inr s'"
    using load r(1) by simp
  then show ?thesis
    using r(2-4) skipped by blast
qed

text \<open>
  With \<open>a.so\<close>, \<open>bad.so\<close> and \<open>b.so\<close> in the directory, the registry is \<open>a.so\<close>,
  \<open>b.so\<close>; handle 3 of \<open>bad.so\<close> is not open at the end.
\<close>

lemma first_load_three_files:
  "\<exists>s' cells. rc_plugin_load three_files (boot Map.empty) = Inr s'
      \<and> plugin_list (heap s') (plugins s') cells
      \<and> map record_of cells
           = map (\<lambda>(d, h, f). (d, h, Some f))
               (loaded three_files [''.'', ''..'', ''a.so'', ''bad.so'', ''b.so''])
      \<and> dl_open s'
           = rev (map (\<lambda>(d, h, f). h)
               (loaded three_files [''.'', ''..'', ''a.so'', ''bad.so'', ''b.so'']))
             @ dl_open (boot Map.empty)
      \<and> (\<forall>d\<in>set [''.'', ''..'', ''a.so'', ''bad.so'', ''b.so''].
            \<forall>h. dlopen three_files d = Some h \<and> dlfunc three_files h = None \<longrightarrow>
              d \<notin> set (map (\<lambda>c. name (snd c)) cells)
              \<and> h \<notin> set (map (\<lambda>c. handle (snd c)) cells))
      \<and> dlopen three_files ''bad.so'' = Some 3 \<and> dlfunc three_files 3 = None
      \<and> loaded three_files [''.'', ''..'', ''a.so'', ''bad.so'', ''b.so'']
           = [(''a.so'', 1, 10), (''b.so'', 2, 20)]
      \<and> s' = two_plugins\<lparr>elog := [Log_no_symbol ''bad.so'']\<rparr>"
proof -
  have h: "\<not> rc_in_plugin (boot Map.empty)" "plugins (boot Map.empty) = None"
    "heap_ok (boot Map.empty)"
    "opendir three_files = Some [''.'', ''..'', ''a.so'', ''bad.so'', ''b.so'']"
    by (simp_all add: boot_def heap_ok_def three_files_def)
  obtain s' cells where r: "rc_plugin_load three_files (boot Map.empty) = Inr s'"
    "plugin_list (heap s') (plugins s') cells"
    "map record_of cells
       = map (\<lambda>(d, h, f). (d, h, Some f))
           (loaded three_files [''.'', ''..'', ''a.so'', ''bad.so'', ''b.so''])"
    "dl_open s'
       = rev (map (\<lambda>(d, h, f). h)
           (loaded three_files [''.'', ''..'', ''a.so'', ''bad.so'', ''b.so'']))
         @ dl_open (boot Map.empty)"
    "\<forall>d\<in>set [''.'', ''..'', ''a.so'', ''bad.so'', ''b.so''].
        \<forall>h. dlopen three_files d = Some h \<and> dlfunc three_files h = None \<longrightarrow>
          d \<notin> set (map (\<lambda>c. name (snd c)) cells)
          \<and> h \<notin> set (map (\<lambda>c. handle (snd c)) cells)"
    using first_load_registry [OF h] by blast
  have bad: "dlopen three_files ''bad.so'' = Some 3" "dlfunc three_files 3 = None"
    by (simp_all add: three_files_def)
  have ld: "loaded three_files [''.'', ''..'', ''a.so'', ''bad.so'', ''b.so'']
           = [(''a.so'', 1, 10), (''b.so'', 2, 20)]"
    by (simp add: three_files_def)
  have "rc_plugin_load three_files (boot Map.empty)
          = Inr (two_plugins\<lparr>elog := [Log_no_symbol ''bad.so'']\<rparr>)"
    by (simp add: rc_plugin_load_def rc_plugin_unload_def unload_loop.simps boot_def
        three_files_def xmalloc_def deref_def two_plugins_def two_cells_def)
  then have s': "s' = two_plugins\<lparr>elog := [Log_no_symbol ''bad.so'']\<rparr>"
    using r(1) by simp
  show ?thesis
    by (rule exI [of _ s'], rule exI [of _ cells]) (intro conjI r bad ld s')
qed

section \<open>Loading twice\<close>

text \<open>
  \<open>rc_plugin_unload\<close> frees the cell that \<open>plugins\<close> pointed to; a load that
  starts with its cursor on that cell fails at the first entry it could load.
\<close>

lemma unload_loop_frees:
  "unload_loop p s = Inr s' \<Longrightarrow>
     brk s' = brk s \<and> plugins s' = plugins s \<and> rc_in_plugin s' = rc_in_plugin s
     \<and> (\<forall>x. map_of (heap s) x = None \<longrightarrow> map_of (heap s') x = None)"
proof (induction p s rule: unload_loop.induct)
  case (1 plugin s)
  show ?case
  proof (cases plugin)
    case None
    then show ?thesis
      using "1.prems" by (simp add: unload_loop.simps)
  next
    case (Some a)
    then obtain pl where pl: "deref s a = Inr pl"
      using "1.prems" by (cases "deref s a") (simp_all add: unload_loop.simps)
    let ?s = "s\<lparr>dl_open := remove1 (handle pl) (dl_open s), heap := AList.delete a (heap s)\<rparr>"
    have "unload_loop (next pl) ?s = Inr s'"
      using "1.prems" Some pl by (simp add: unload_loop.simps)
    from "1.IH" [OF Some pl this] show ?thesis
      by (simp add: delete_conv')
  qed
qed

lemma unload_frees_head:
  assumes "unload_loop (Some a) s = Inr s'"
  shows "map_of (heap s') a = None"
proof -
  obtain pl where pl: "deref s a = Inr pl"
    using assms by (cases "deref s a") (simp_all add: unload_loop.simps)
  let ?s = "s\<lparr>dl_open := remove1 (handle pl) (dl_open s), heap := AList.delete a (heap s)\<rparr>"
  have "unload_loop (next pl) ?s = Inr s'"
    using assms pl by (simp add: unload_loop.simps)
  moreover have "map_of (heap ?s) a = None"
    by (simp add: delete_conv')
  ultimately show ?thesis
    using unload_loop_frees [of "next pl" ?s s'] by blast
qed

lemma load_loop_dangling:
  assumes "map_of (heap s) a = None" and "a < brk s"
  shows "load_loop pd ds (Some a) s =
           (if loaded pd ds = [] then load_loop pd ds None s else Inl Use_after_free)"
  using assms
proof (induction ds arbitrary: s)
  case Nil
  then show ?case by simp
next
  case (Cons d ds)
  have hid: "(case d of [] \<Rightarrow> False | c # _ \<Rightarrow> c = CHR ''.'') = (take 1 d = ''.'')"
    by (cases d) auto
  show ?case
  proof (cases "take 1 d = ''.''")
    case True
    then show ?thesis
      using Cons hid by simp
  next
    case False
    show ?thesis
    proof (cases "dlopen pd d")
      case None
      then show ?thesis
        using False hid Cons.IH [of "s\<lparr>elog := elog s @ [Log_dlopen]\<rparr>"] Cons.prems by simp
    next
      case (Some h)
      show ?thesis
      proof (cases "dlfunc pd h")
        case None
        then show ?thesis
          using False hid Some Cons.prems
            Cons.IH [of "s\<lparr>dl_open := h # dl_open s, elog := elog s @ [Log_no_symbol d],
                    dl_open := remove1 h (h # dl_open s)\<rparr>"]
          by simp
      next
        case fptr: (Some f)
        then show ?thesis
          using False hid Some Cons.prems by (simp add: xmalloc_def deref_def)
      qed
    qed
  qed
qed

lemma reload_uses_freed_cell:
  assumes "\<not> rc_in_plugin s" and "plugins s = Some a" and "heap_ok s"
    and "rc_plugin_unload s = Inr s1" and "opendir pd = Some ds" and "loaded pd ds \<noteq> []"
  shows "rc_plugin_load pd s = Inl Use_after_free"
proof -
  obtain s0 where s0: "unload_loop (Some a) s = Inr s0" and s1: "s1 = s0\<lparr>plugins := None\<rparr>"
    using assms(2,4) by (auto simp: rc_plugin_unload_def split: sum.splits)
  have "map_of (heap s) a \<noteq> None"
    using s0 by (auto simp: unload_loop.simps deref_def split: option.splits)
  then have "a \<in> fst ` set (heap s)"
    by (metis domIff dom_map_of_conv_image_fst)
  then have "a < brk s"
    using assms(3) by (auto simp: heap_ok_def)
  then have "a < brk s1"
    using unload_loop_frees [OF s0] s1 by simp
  moreover have "map_of (heap s1) a = None"
    using unload_frees_head [OF s0] s1 by simp
  ultimately have "load_loop pd ds (Some a) s1 = Inl Use_after_free"
    using assms(6) by (simp add: load_loop_dangling)
  then show ?thesis
    using assms(1,2,4,5) by (simp add: rc_plugin_load_def)
qed

text \<open>
  Claim C1 at a failing input.  The directory holds one plugin, \<open>a.so\<close>.  The
  first \<open>rc_plugin_load\<close>, in the process at its start, gives a registry of one
  cell.  The second one copies \<open>plugins\<close> into its local \<open>plugin\<close>, then
  \<open>rc_plugin_unload\<close> frees that cell and sets \<open>plugins\<close> to null; for \<open>a.so\<close>
  the loop finds \<open>plugin\<close> not null and writes \<open>plugin->next\<close> into the freed
  cell.  \<open>plugins\<close> is never assigned again.
\<close>

theorem reload_writes_freed_cell:
  "rc_plugin_load
     \<lparr>opendir = Some [''.'', ''..'', ''a.so''], dlopen = (\<lambda>d. Some 1), dlfunc = (\<lambda>h. Some 10)\<rparr>
     (boot Map.empty)
   = Inr ((boot Map.empty)
        \<lparr>heap := [(0, \<lparr>name = ''a.so'', handle = 1, hook = Some 10, next = None\<rparr>)],
          brk := 1, plugins := Some 0, dl_open := [1]\<rparr>)
   \<and> rc_plugin_load
     \<lparr>opendir = Some [''.'', ''..'', ''a.so''], dlopen = (\<lambda>d. Some 1), dlfunc = (\<lambda>h. Some 10)\<rparr>
     ((boot Map.empty)
        \<lparr>heap := [(0, \<lparr>name = ''a.so'', handle = 1, hook = Some 10, next = None\<rparr>)],
          brk := 1, plugins := Some 0, dl_open := [1]\<rparr>)
   = Inl Use_after_free"
  by (simp add: rc_plugin_load_def rc_plugin_unload_def unload_loop.simps boot_def
      xmalloc_def deref_def)

text \<open>
  Claim C10 at a failing input.  The directory holds \<open>a.so\<close>, \<open>bad.so\<close> (which
  opens but does not export the hook symbol) and \<open>b.so\<close>.  The first
  \<open>rc_plugin_load\<close> skips \<open>bad.so\<close> and loads the two others.  The second one, in
  the state the first one left, frees the list and then, at \<open>a.so\<close>, writes
  through its dangling \<open>plugin\<close>: the entries that could be loaded do not come
  back into the registry.  It is the defect of claim C1.
\<close>

theorem reload_loses_loadable_entries:
  "rc_plugin_load three_files (boot Map.empty)
     = Inr (two_plugins\<lparr>elog := [Log_no_symbol ''bad.so'']\<rparr>)
   \<and> rc_plugin_load three_files (two_plugins\<lparr>elog := [Log_no_symbol ''bad.so'']\<rparr>)
     = Inl Use_after_free"
  by (simp add: rc_plugin_load_def rc_plugin_unload_def unload_loop.simps boot_def
      three_files_def xmalloc_def deref_def two_plugins_def two_cells_def)

end
